theory Spec2Isabelle
  imports Main "HOL-Library.Word"
begin

text \<open>
  The repository holds two versions of the extension's content script:
  src/unnamed/part_000 (with the popup's script after it) and src/extension/content.js.
  Both scrape the job page, inject a tracking control next to the apply buttons and
  post the scraped record when the control is clicked. The definitions below follow
  src/unnamed/part_000 and keep its names; where the version of
  src/extension/content.js differs, its definition carries the suffix \<open>_ext\<close>.
\<close>

section \<open>JavaScript strings\<close>

text \<open>
  A JavaScript string is a sequence of UTF-16 code units: \<open>s.length\<close> counts code
  units, \<open>s.substring(0, n)\<close> keeps the first \<open>n\<close> of them and \<open>+\<close> appends.
  \<open>js\<close> writes an ASCII literal of the source as such a string.
\<close>

type_synonym jsstring = "16 word list"

definition js :: "string \<Rightarrow> jsstring" where
  "js s = map of_char s"

text \<open>The one-code-unit literal U+2026 (horizontal ellipsis) of \<open>scrapeJobData\<close>.\<close>

definition ellipsis :: jsstring where
  "ellipsis = [0x2026]"

text \<open>
  \<open>String.prototype.trim\<close> removes the code units of ECMAScript's WhiteSpace and
  LineTerminator productions from both ends.
\<close>

definition is_space :: "16 word \<Rightarrow> bool" where
  "is_space c \<longleftrightarrow>
     c \<in> set [0x09, 0x0A, 0x0B, 0x0C, 0x0D, 0x20, 0xA0, 0x1680, 0x2028, 0x2029,
                0x202F, 0x205F, 0x3000, 0xFEFF]
     \<or> (0x2000 \<le> c \<and> c \<le> 0x200A)"

definition trim :: "jsstring \<Rightarrow> jsstring" where
  "trim s = rev (dropWhile is_space (rev (dropWhile is_space s)))"

text \<open>
  \<open>String.prototype.toLowerCase\<close>, exact on ASCII: \<open>A\<close>..\<open>Z\<close> go to \<open>a\<close>..\<open>z\<close>.
  Other code units are left as they are. The source only compares the result with the
  literals \<open>apply\<close> and \<open>easy apply\<close>, and no character outside ASCII lower-cases to
  one of their letters, so the comparisons come out as in JavaScript.
\<close>

definition lower_unit :: "16 word \<Rightarrow> 16 word" where
  "lower_unit c = (if 0x41 \<le> c \<and> c \<le> 0x5A then c + 0x20 else c)"

definition toLowerCase :: "jsstring \<Rightarrow> jsstring" where
  "toLowerCase s = map lower_unit s"

definition startsWith :: "'a list \<Rightarrow> 'a list \<Rightarrow> bool" where
  "startsWith s p \<longleftrightarrow> take (length p) s = p"

section \<open>The document\<close>

text \<open>
  An element carries what the content script reads of it: its identity as an object
  (\<open>eid\<close>; two references are \<open>===\<close> when their \<open>eid\<close> agree), its local name, the
  tokens of its \<open>class\<close> attribute, its other attributes (\<open>id\<close>, \<open>aria-label\<close>,
  \<open>data-*\<close>, ...), and the three layout measures \<open>isVisible\<close> looks at. A node is an
  element with its child nodes, or a text node.
\<close>

record element =
  eid :: nat
  tagName :: string
  classNames :: "string list"
  attributes :: "(string \<times> string) list"
  offsetWidth :: nat
  offsetHeight :: nat
  clientRects :: nat

datatype node = Element element "node list" | Text jsstring

text \<open>\<open>node.textContent\<close>: the text of all text-node descendants, in document order.\<close>

fun textContent :: "node \<Rightarrow> jsstring" where
  "textContent (Text t) = t"
| "textContent (Element e ks) = concat (map textContent ks)"

text \<open>
  A reference to an element inside a tree: the element, its \<open>textContent\<close> and its
  ancestors, nearest first. \<open>entries\<close> lists the elements of a tree in document order.
\<close>

type_synonym entry = "element \<times> jsstring \<times> element list"

fun entries :: "element list \<Rightarrow> node \<Rightarrow> entry list" where
  "entries ancs (Text t) = []"
| "entries ancs (Element e ks) =
     (e, concat (map textContent ks), ancs) # concat (map (entries (e # ancs)) ks)"

definition ancestors :: "entry \<Rightarrow> element list" where
  "ancestors x = snd (snd x)"

definition getAttribute :: "element \<Rightarrow> string \<Rightarrow> string option" where
  "getAttribute e name = map_of (attributes e) name"

subsection \<open>Selectors\<close>

text \<open>
  The selectors of the source are compound selectors (\<open>h1.t-24\<close>, \<open>button[aria-label^="Apply"]\<close>)
  joined by the descendant combinator (\<open>.a .b\<close>). A selector is the list of its
  compounds, outermost first.
\<close>

datatype simple_selector =
    TagSel string
  | ClassSel string
  | IdSel string
  | AttrSel string
  | AttrPrefixSel string string

type_synonym compound = "simple_selector list"
type_synonym selector = "compound list"

fun matches_simple :: "element \<Rightarrow> simple_selector \<Rightarrow> bool" where
  "matches_simple e (TagSel t) = (tagName e = t)"
| "matches_simple e (ClassSel c) = (c \<in> set (classNames e))"
| "matches_simple e (IdSel i) = (getAttribute e ''id'' = Some i)"
| "matches_simple e (AttrSel a) = (getAttribute e a \<noteq> None)"
| "matches_simple e (AttrPrefixSel a p) =
     (case getAttribute e a of None \<Rightarrow> False | Some v \<Rightarrow> p \<noteq> [] \<and> startsWith v p)"

definition matches_compound :: "element \<Rightarrow> compound \<Rightarrow> bool" where
  "matches_compound e c = list_all (matches_simple e) c"

text \<open>The outer compounds, innermost first, against the ancestors, nearest first.\<close>

fun matches_ancestors :: "compound list \<Rightarrow> element list \<Rightarrow> bool" where
  "matches_ancestors [] ancs = True"
| "matches_ancestors (c # cs) [] = False"
| "matches_ancestors (c # cs) (a # ancs) =
     (if matches_compound a c then matches_ancestors cs ancs
      else matches_ancestors (c # cs) ancs)"

definition matches :: "selector \<Rightarrow> entry \<Rightarrow> bool" where
  "matches sel x =
     (case rev sel of
        [] \<Rightarrow> False
      | c # cs \<Rightarrow> matches_compound (fst x) c \<and> matches_ancestors cs (ancestors x))"

text \<open>\<open>document.querySelectorAll\<close> and \<open>document.querySelector\<close> (\<open>None\<close> is \<open>null\<close>).\<close>

definition querySelectorAll :: "node \<Rightarrow> selector \<Rightarrow> entry list" where
  "querySelectorAll d sel = filter (matches sel) (entries [] d)"

definition querySelector :: "node \<Rightarrow> selector \<Rightarrow> entry option" where
  "querySelector d sel = find (matches sel) (entries [] d)"

text \<open>\<open>a || b\<close> on element references: \<open>a\<close> unless it is \<open>null\<close>.\<close>

fun orElse :: "'a option \<Rightarrow> 'a option \<Rightarrow> 'a option" where
  "orElse (Some x) b = Some x"
| "orElse None b = b"

section \<open>The scraper\<close>

text \<open>
  \<open>window.location\<close> as the scraper reads it: \<open>href\<close> and \<open>search\<close> (the query
  string with its leading \<open>?\<close>, or empty).
\<close>

record location =
  href :: jsstring
  search :: jsstring

record page =
  document :: node
  location :: location

record jobData =
  job_title :: jsstring
  company :: jsstring
  description :: jsstring
  url :: jsstring

subsection \<open>\<open>URLSearchParams\<close>\<close>

text \<open>
  \<open>new URLSearchParams(s).get(name)\<close>: a leading \<open>?\<close> is dropped, the rest is split
  at \<open>&\<close>, empty pieces are skipped, each piece is split at its first \<open>=\<close>, name and
  value are decoded, and \<open>get\<close> returns the value of the first pair with that name
  (\<open>None\<close> is \<open>null\<close>). Decoding turns \<open>+\<close> into a space and \<open>%XY\<close> into the code
  unit \<open>XY\<close>; this is the browser's decoding for escapes below \<open>%80\<close>, and the
  browser further reads runs of higher escapes as UTF-8.
\<close>

fun split_on :: "'a \<Rightarrow> 'a list \<Rightarrow> 'a list list" where
  "split_on s [] = [[]]"
| "split_on s (c # cs) =
     (if c = s then [] # split_on s cs
      else (case split_on s cs of [] \<Rightarrow> [[c]] | p # ps \<Rightarrow> (c # p) # ps))"

definition hex_digit :: "16 word \<Rightarrow> 16 word option" where
  "hex_digit c =
     (if 0x30 \<le> c \<and> c \<le> 0x39 then Some (c - 0x30)
      else if 0x41 \<le> c \<and> c \<le> 0x46 then Some (c - 0x37)
      else if 0x61 \<le> c \<and> c \<le> 0x66 then Some (c - 0x57)
      else None)"

fun percent_decode :: "jsstring \<Rightarrow> jsstring" where
  "percent_decode (c # h # l # cs) =
     (if c = 0x25 then
        (case (hex_digit h, hex_digit l) of
           (Some x, Some y) \<Rightarrow> (16 * x + y) # percent_decode cs
         | _ \<Rightarrow> c # percent_decode (h # l # cs))
      else c # percent_decode (h # l # cs))"
| "percent_decode cs = cs"

definition form_decode :: "jsstring \<Rightarrow> jsstring" where
  "form_decode s = percent_decode (map (\<lambda>c. if c = 0x2B then 0x20 else c) s)"

definition URLSearchParams :: "jsstring \<Rightarrow> (jsstring \<times> jsstring) list" where
  "URLSearchParams s =
     map (\<lambda>piece. (form_decode (takeWhile (\<lambda>c. c \<noteq> 0x3D) piece),
                    form_decode (drop 1 (dropWhile (\<lambda>c. c \<noteq> 0x3D) piece))))
       (filter (\<lambda>piece. piece \<noteq> [])
          (split_on 0x26 (if startsWith s [0x3F] then drop 1 s else s)))"

definition params_get :: "(jsstring \<times> jsstring) list \<Rightarrow> jsstring \<Rightarrow> jsstring option" where
  "params_get ps name = map_of ps name"

text \<open>\<open>new URLSearchParams(window.location.search).get('currentJobId')\<close>\<close>

definition currentJobId :: "page \<Rightarrow> jsstring option" where
  "currentJobId pg = params_get (URLSearchParams (search (location pg))) (js ''currentJobId'')"

subsection \<open>\<open>scrapeJobData\<close> of the content script (src/unnamed/part_000)\<close>

definition titleEl :: "node \<Rightarrow> entry option" where
  "titleEl d =
     orElse (querySelector d [[ClassSel ''job-details-jobs-unified-top-card__job-title''], [TagSel ''h1'']])
    (orElse (querySelector d [[ClassSel ''jobs-unified-top-card__job-title'']])
    (orElse (querySelector d [[ClassSel ''job-details-jobs-unified-top-card__job-title'']])
    (orElse (querySelector d [[TagSel ''h1'', ClassSel ''t-24'']])
            (querySelector d [[TagSel ''h1'']]))))"

definition companyEl :: "node \<Rightarrow> entry option" where
  "companyEl d =
     orElse (querySelector d [[ClassSel ''job-details-jobs-unified-top-card__company-name''], [TagSel ''a'']])
    (orElse (querySelector d [[ClassSel ''jobs-unified-top-card__company-name''], [TagSel ''a'']])
    (orElse (querySelector d [[ClassSel ''job-details-jobs-unified-top-card__company-name'']])
            (querySelector d [[ClassSel ''jobs-unified-top-card__company-name'']])))"

definition descEl :: "node \<Rightarrow> entry option" where
  "descEl d =
     orElse (querySelector d [[ClassSel ''jobs-description__content''], [ClassSel ''jobs-box__html-content'']])
    (orElse (querySelector d [[ClassSel ''jobs-description-content__text'']])
            (querySelector d [[IdSel ''job-details'']]))"

text \<open>\<open>el ? el.textContent.trim() : dflt\<close>\<close>

definition trimmed_text :: "entry option \<Rightarrow> jsstring \<Rightarrow> jsstring" where
  "trimmed_text el dflt =
     (case el of None \<Rightarrow> dflt | Some (e, txt, ancs) \<Rightarrow> trim txt)"

definition scrapeJobData :: "page \<Rightarrow> jobData" where
  "scrapeJobData pg =
     (let title = trimmed_text (titleEl (document pg)) (js ''Unknown Position'');
          comp = trimmed_text (companyEl (document pg)) (js ''Unknown Company'');
          fullDesc = trimmed_text (descEl (document pg)) [];
          desc = (if length fullDesc > 200 then take 200 fullDesc @ ellipsis else fullDesc);
          stripped = takeWhile (\<lambda>c. c \<noteq> 0x3F) (href (location pg))
      in \<lparr> job_title = title, company = comp, description = desc,
           url = (case currentJobId pg of
                    None \<Rightarrow> stripped
                  | Some i \<Rightarrow> if i \<noteq> [] then js ''https://www.linkedin.com/jobs/view/'' @ i @ js ''/''
                              else stripped) \<rparr>)"

subsection \<open>\<open>scrapeJobData\<close> of src/extension/content.js\<close>

definition titleEl_ext :: "node \<Rightarrow> entry option" where
  "titleEl_ext d =
     orElse (querySelector d [[ClassSel ''job-details-jobs-unified-top-card__job-title''], [TagSel ''h1'']])
    (orElse (querySelector d [[ClassSel ''jobs-unified-top-card__job-title'']])
    (orElse (querySelector d [[TagSel ''h1'', ClassSel ''t-24'']])
            (querySelector d [[TagSel ''h1'']])))"

definition scrapeJobData_ext :: "page \<Rightarrow> jobData" where
  "scrapeJobData_ext pg =
     (let title = trimmed_text (titleEl_ext (document pg)) (js ''Unknown Position'');
          comp = trimmed_text (companyEl (document pg)) [];
          fullDesc = trimmed_text (descEl (document pg)) [];
          desc = (if length fullDesc > 200 then take 200 fullDesc @ ellipsis else fullDesc)
      in \<lparr> job_title = title, company = comp, description = desc,
           url = takeWhile (\<lambda>c. c \<noteq> 0x3F) (href (location pg)) \<rparr>)"

section \<open>The tracking control and the submitter (src/unnamed/part_000)\<close>

text \<open>
  The control is a \<open>button\<close> element with two properties of the script's own
  (\<open>originalHTML\<close>, \<open>originalText\<close>). Its content is what was last assigned to it, through
  \<open>textContent\<close> or through \<open>innerHTML\<close>; reading \<open>innerHTML\<close> gives the assigned markup
  back, or the assigned text with \<open>&\<close>, \<open><\<close>, \<open>>\<close> and U+00A0 escaped.
\<close>

datatype content = TextContent jsstring | InnerHTML jsstring

definition html_escape :: "jsstring \<Rightarrow> jsstring" where
  "html_escape t =
     concat (map (\<lambda>c. if c = 0x26 then js ''&amp;'' else if c = 0x3C then js ''&lt;''
                        else if c = 0x3E then js ''&gt;'' else if c = 0xA0 then js ''&nbsp;''
                        else [c]) t)"

fun innerHTML :: "content \<Rightarrow> jsstring" where
  "innerHTML (InnerHTML h) = h"
| "innerHTML (TextContent t) = html_escape t"

record control =
  ident :: string
  title :: string
  content :: content
  classList :: "string list"
  disabled :: bool
  originalHTML :: "jsstring option"
  originalText :: "jsstring option"
  tracked :: "string option"

definition classList_add :: "string \<Rightarrow> string list \<Rightarrow> string list" where
  "classList_add c cs = (if c \<in> set cs then cs else cs @ [c])"

definition classList_remove :: "string \<Rightarrow> string list \<Rightarrow> string list" where
  "classList_remove c cs = filter (\<lambda>x. x \<noteq> c) cs"

definition BUTTON_ID_PREFIX :: string where
  "BUTTON_ID_PREFIX = ''jt-track-btn-''"

definition PROCESSED_ATTR :: string where
  "PROCESSED_ATTR = ''data-jt-processed''"

definition DEFAULT_HTML :: jsstring where
  "DEFAULT_HTML = js ''<span>+</span> Track''"

text \<open>
  \<open>createButton\<close>; \<open>suffix\<close> is \<open>Math.random().toString(36).substr(2, 9)\<close>. The click
  listener it registers is \<open>step (Click ...)\<close> below.
\<close>

definition createButton :: "string \<Rightarrow> control" where
  "createButton suffix =
     \<lparr> ident = BUTTON_ID_PREFIX @ suffix,
       title = ''Track this application in Job Tracker'',
       content = InnerHTML DEFAULT_HTML,
       classList = [''jt-track-btn'', ''artdeco-button'', ''artdeco-button--2'',
                    ''artdeco-button--secondary''],
       disabled = False,
       originalHTML = Some (innerHTML (InnerHTML DEFAULT_HTML)),
       originalText = None,
       tracked = None \<rparr>"

text \<open>
  What the submitter acts on: the control, the pending \<open>setTimeout\<close> callbacks in the
  order they were scheduled (delay in ms and the \<open>type\<close> the callback closed over), the
  \<open>fetch\<close> calls issued so far, how many of them have not settled, and what was
  written with \<open>console.error\<close>.
\<close>

datatype json =
    JNull
  | JBool bool
  | JNumber int
  | JString jsstring
  | JArray "json list"
  | JObject "(jsstring \<times> json) list"

record request =
  endpoint :: jsstring
  http_method :: string
  headers :: "(string \<times> string) list"
  body :: jobData

datatype logged = ApiError json | NetworkError string

record world =
  button :: control
  timers :: "(nat \<times> string) list"
  requests :: "request list"
  inflight :: nat
  console :: "logged list"

text \<open>The labels of the source: an emoji, then ASCII text.\<close>

definition TEXT_SET_API_URL :: jsstring where
  "TEXT_SET_API_URL = [0x2699, 0xFE0F] @ js '' Set API URL''"

definition TEXT_CANT_READ :: jsstring where
  "TEXT_CANT_READ = [0x26A0, 0xFE0F] @ js '' Can't read job''"

definition TEXT_SAVING :: jsstring where
  "TEXT_SAVING = [0x23F3] @ js '' Saving...''"

definition TEXT_TRACKED :: jsstring where
  "TEXT_TRACKED = [0x2705] @ js '' Tracked!''"

definition TEXT_FAILED :: jsstring where
  "TEXT_FAILED = [0x274C] @ js '' Failed''"

definition TEXT_ERROR :: jsstring where
  "TEXT_ERROR = [0x274C] @ js '' Error''"

text \<open>The callback \<open>showFeedback\<close> hands to \<open>setTimeout\<close>, for the \<open>type\<close> it closed over.\<close>

definition revert :: "string \<Rightarrow> world \<Rightarrow> world" where
  "revert ty w =
     w\<lparr> button := (button w)
          \<lparr> content := InnerHTML (case originalHTML (button w) of
                                     None \<Rightarrow> DEFAULT_HTML
                                   | Some h \<Rightarrow> if h = [] then DEFAULT_HTML else h),
            classList := classList_remove (''jt-'' @ ty) (classList (button w)),
            disabled := False \<rparr> \<rparr>"

definition showFeedback :: "jsstring \<Rightarrow> string \<Rightarrow> world \<Rightarrow> world" where
  "showFeedback txt ty w =
     w\<lparr> button := (button w)
          \<lparr> content := TextContent txt,
            classList := classList_add (''jt-'' @ ty) (classList (button w)),
            disabled := (ty = ''success'') \<rparr>,
        timers := (if ty \<noteq> ''success'' then timers w @ [(2500, ty)] else timers w) \<rparr>"

text \<open>\<open>getApiUrl\<close>: \<open>result.apiBaseUrl || ""\<close>, the stored value being absent or a string.\<close>

definition getApiUrl :: "jsstring option \<Rightarrow> jsstring" where
  "getApiUrl stored = (case stored of None \<Rightarrow> [] | Some u \<Rightarrow> u)"

text \<open>
  \<open>trackJob\<close> up to its \<open>fetch\<close> call. The result says whether a request was issued
  (and the function now waits for it to settle).
\<close>

definition trackJob_send :: "jsstring option \<Rightarrow> page \<Rightarrow> world \<Rightarrow> world \<times> bool" where
  "trackJob_send stored pg w =
     (let apiUrl = getApiUrl stored in
      if apiUrl = [] then (showFeedback TEXT_SET_API_URL ''warning'' w, False)
      else
        let jobData = scrapeJobData pg in
        if job_title jobData = [] \<or> job_title jobData = js ''Unknown Position''
        then (showFeedback TEXT_CANT_READ ''warning'' w, False)
        else
          (w\<lparr> button := (button w)
                \<lparr> disabled := True,
                  originalText := Some (innerHTML (content (button w))),
                  content := TextContent TEXT_SAVING \<rparr>,
              requests := requests w @
                [\<lparr> endpoint = apiUrl @ js ''/api/jobs'', http_method = ''POST'',
                   headers = [(''Content-Type'', ''application/json'')],
                   body = jobData \<rparr>] \<rparr>, True))"

text \<open>
  How the \<open>fetch\<close> settles: with a response (\<open>res.ok\<close>, and what \<open>res.json()\<close> yields,
  \<open>None\<close> when it rejects), or rejected with an exception.
\<close>

datatype fetch_outcome = Resolved bool "json option" | Rejected string

text \<open>\<open>trackJob\<close> from the point where the \<open>fetch\<close> has settled.\<close>

fun trackJob_settle :: "fetch_outcome \<Rightarrow> world \<Rightarrow> world" where
  "trackJob_settle (Resolved ok parsed) w =
     (if ok then
        (let w' = showFeedback TEXT_TRACKED ''success'' w
         in w'\<lparr> button := (button w')\<lparr> tracked := Some ''true'' \<rparr> \<rparr>)
      else
        (let err = (case parsed of None \<Rightarrow> JObject [] | Some v \<Rightarrow> v);
             w' = showFeedback TEXT_FAILED ''error'' w
         in w'\<lparr> console := console w' @ [ApiError err] \<rparr>))"
| "trackJob_settle (Rejected e) w =
     (let w' = showFeedback TEXT_ERROR ''error'' w
      in w'\<lparr> console := console w' @ [NetworkError e] \<rparr>)"

text \<open>One run of \<open>trackJob\<close> with nothing else happening while it waits.\<close>

definition trackJob :: "jsstring option \<Rightarrow> page \<Rightarrow> fetch_outcome \<Rightarrow> world \<Rightarrow> world" where
  "trackJob stored pg outcome w =
     (case trackJob_send stored pg w of
        (w', True) \<Rightarrow> trackJob_settle outcome w'
      | (w', False) \<Rightarrow> w')"

text \<open>
  The events of a control's life, one at a time as the page's single thread runs
  them: a click (the browser dispatches none on a disabled button), with the stored
  base URL and the page as they are then; a pending \<open>fetch\<close> settling; the oldest
  pending timer firing (all delays are equal, so timers fire in scheduling order).
\<close>

datatype event = Click "jsstring option" page | Settles fetch_outcome | TimerFires

fun step :: "event \<Rightarrow> world \<Rightarrow> world" where
  "step (Click stored pg) w =
     (if disabled (button w) then w
      else (case trackJob_send stored pg w of
              (w', True) \<Rightarrow> w'\<lparr> inflight := Suc (inflight w') \<rparr>
            | (w', False) \<Rightarrow> w'))"
| "step (Settles outcome) w =
     (if inflight w = 0 then w
      else trackJob_settle outcome (w\<lparr> inflight := inflight w - 1 \<rparr>))"
| "step TimerFires w =
     (case timers w of
        [] \<Rightarrow> w
      | (delay, ty) # rest \<Rightarrow> revert ty (w\<lparr> timers := rest \<rparr>))"

fun run :: "event list \<Rightarrow> world \<Rightarrow> world" where
  "run [] w = w"
| "run (ev # evs) w = run evs (step ev w)"

definition new_world :: "string \<Rightarrow> world" where
  "new_world suffix =
     \<lparr> button = createButton suffix, timers = [], requests = [], inflight = 0, console = [] \<rparr>"

subsection \<open>\<open>showFeedback\<close> of src/extension/content.js\<close>

text \<open>
  It assigns \<open>className\<close> instead of adding a class; the callback it schedules is
  \<open>revert_ext\<close>.
\<close>

definition TEXT_TRACK_APPLICATION :: jsstring where
  "TEXT_TRACK_APPLICATION = [0xD83D, 0xDCCB] @ js '' Track Application''"

definition revert_ext :: "world \<Rightarrow> world" where
  "revert_ext w =
     w\<lparr> button := (button w)
          \<lparr> content := TextContent TEXT_TRACK_APPLICATION,
            classList := [''jt-track-btn''],
            disabled := False \<rparr> \<rparr>"

definition showFeedback_ext :: "jsstring \<Rightarrow> string \<Rightarrow> world \<Rightarrow> world" where
  "showFeedback_ext txt ty w =
     w\<lparr> button := (button w)
          \<lparr> content := TextContent txt,
            classList := [''jt-track-btn'', ''jt-'' @ ty],
            disabled := (ty = ''success'') \<rparr>,
        timers := (if ty \<noteq> ''success'' then timers w @ [(2500, ty)] else timers w) \<rparr>"

section \<open>The injector (src/unnamed/part_000)\<close>

subsection \<open>The DOM operations it uses\<close>

text \<open>
  An element reference held by the script is the element's identity; \<open>entry_of\<close> finds
  the element in the document as it is now.
\<close>

definition entry_of :: "node \<Rightarrow> nat \<Rightarrow> entry option" where
  "entry_of d i = find (\<lambda>x. eid (fst x) = i) (entries [] d)"

text \<open>\<open>el.closest(sel)\<close>: the nearest of the element and its ancestors that matches.\<close>

fun closest_in :: "selector \<Rightarrow> element list \<Rightarrow> element option" where
  "closest_in sel [] = None"
| "closest_in sel (a # ancs) =
     (if matches sel (a, [], ancs) then Some a else closest_in sel ancs)"

definition closest :: "entry \<Rightarrow> selector \<Rightarrow> element option" where
  "closest x sel = closest_in sel (fst x # ancestors x)"

definition parentElement :: "entry \<Rightarrow> element option" where
  "parentElement x = (case ancestors x of [] \<Rightarrow> None | p # ps \<Rightarrow> Some p)"

text \<open>
  The identity of \<open>el.parentNode\<close> when it is an element; the root element's parent
  node is the document, which is none.
\<close>

definition parent_id :: "entry \<Rightarrow> nat option" where
  "parent_id x = map_option eid (parentElement x)"

text \<open>
  \<open>c.querySelector(sel)\<close> for the element with identity \<open>c\<close>: the first element in
  document order that matches and has \<open>c\<close> among its ancestors.
\<close>

definition element_querySelector :: "node \<Rightarrow> nat \<Rightarrow> selector \<Rightarrow> entry option" where
  "element_querySelector d c sel =
     find (\<lambda>x. matches sel x \<and> c \<in> set (map eid (ancestors x))) (entries [] d)"

text \<open>\<open>el.setAttribute(name, v)\<close> on the element with identity \<open>i\<close>.\<close>

definition update_attribute :: "string \<Rightarrow> string \<Rightarrow> (string \<times> string) list \<Rightarrow> (string \<times> string) list" where
  "update_attribute name v attrs =
     (if name \<in> set (map fst attrs)
      then map (\<lambda>(k, old). if k = name then (k, v) else (k, old)) attrs
      else attrs @ [(name, v)])"

definition set_on :: "nat \<Rightarrow> string \<Rightarrow> string \<Rightarrow> element \<Rightarrow> element" where
  "set_on i name v e =
     (if eid e = i then e\<lparr> attributes := update_attribute name v (attributes e) \<rparr> else e)"

fun setAttribute :: "nat \<Rightarrow> string \<Rightarrow> string \<Rightarrow> node \<Rightarrow> node" where
  "setAttribute i name v (Text t) = Text t"
| "setAttribute i name v (Element e ks) =
     Element (set_on i name v e) (map (setAttribute i name v) ks)"

text \<open>
  \<open>c.insertBefore(n, a.nextSibling)\<close> for a child \<open>a\<close> of \<open>c\<close> (\<open>insertInto c (Some a) n\<close>)
  and \<open>c.appendChild(n)\<close> (\<open>insertInto c None n\<close>): \<open>n\<close> becomes the child after \<open>a\<close>, or
  the last child. The elements that were there keep their layout measures: the model
  does not lay the page out again.
\<close>

fun is_element :: "nat option \<Rightarrow> node \<Rightarrow> bool" where
  "is_element (Some a) (Element e ks) = (eid e = a)"
| "is_element r k = False"

fun place :: "nat option \<Rightarrow> node \<Rightarrow> node list \<Rightarrow> node list" where
  "place r n [] = [n]"
| "place r n (k # ks) = (if is_element r k then k # n # ks else k # place r n ks)"

fun insertInto :: "nat \<Rightarrow> nat option \<Rightarrow> node \<Rightarrow> node \<Rightarrow> node" where
  "insertInto c r n (Text t) = Text t"
| "insertInto c r n (Element e ks) =
     Element e (if eid e = c then place r n ks else map (insertInto c r n) ks)"

subsection \<open>Finding the apply buttons\<close>

definition APPLY_BTN_SELECTORS :: "selector list" where
  "APPLY_BTN_SELECTORS =
     [[[ClassSel ''jobs-apply-button'']],
      [[AttrSel ''data-live-test-job-apply-button'']],
      [[ClassSel ''jobs-apply-button--top-card'']],
      [[TagSel ''button'', AttrPrefixSel ''aria-label'' ''Easy Apply'']],
      [[TagSel ''button'', AttrPrefixSel ''aria-label'' ''Apply'']]]"

definition CONTAINER_SELECTORS :: "selector list" where
  "CONTAINER_SELECTORS =
     [[[ClassSel ''jobs-s-apply'']],
      [[ClassSel ''jobs-unified-top-card__content--two-pane'']],
      [[ClassSel ''jobs-unified-top-card__actions-container'']],
      [[ClassSel ''jobs-details__main-content'']],
      [[ClassSel ''jobs-search__job-details--container'']],
      [[ClassSel ''mt5'']],
      [[ClassSel ''display-flex'']]]"

definition isVisible :: "element \<Rightarrow> bool" where
  "isVisible e \<longleftrightarrow> offsetWidth e \<noteq> 0 \<or> offsetHeight e \<noteq> 0 \<or> clientRects e \<noteq> 0"

text \<open>\<open>found.add(btn)\<close> on a \<open>Set\<close> of references, which keeps insertion order.\<close>

definition found_add :: "nat \<Rightarrow> nat list \<Rightarrow> nat list" where
  "found_add i found = (if i \<in> set found then found else found @ [i])"

text \<open>Strategy 1: the body of the loop over \<open>APPLY_BTN_SELECTORS\<close>.\<close>

definition by_selector :: "node \<Rightarrow> selector \<Rightarrow> nat list \<Rightarrow> nat list" where
  "by_selector d sel found =
     fold (\<lambda>btn acc. if isVisible (fst btn) then found_add (eid (fst btn)) acc else acc)
       (querySelectorAll d sel) found"

text \<open>Strategy 2: the callback of \<open>allButtons.forEach\<close>.\<close>

definition by_text :: "entry \<Rightarrow> nat list \<Rightarrow> nat list" where
  "by_text btn found =
     (if eid (fst btn) \<in> set found then found
      else if ''artdeco-button'' \<notin> set (classNames (fst btn)) then found
      else
        let txt = toLowerCase (trim (fst (snd btn))) in
        if (txt = js ''apply'' \<or> txt = js ''easy apply'') \<and> isVisible (fst btn)
        then found_add (eid (fst btn)) found
        else found)"

definition findApplyButtons :: "node \<Rightarrow> nat list" where
  "findApplyButtons d =
     fold by_text (querySelectorAll d [[TagSel ''button'']])
       (fold (by_selector d) APPLY_BTN_SELECTORS [])"

definition findInjectionContainer :: "entry \<Rightarrow> element option" where
  "findInjectionContainer applyBtn =
     (case List.map_filter (closest applyBtn) CONTAINER_SELECTORS of
        container # others \<Rightarrow> Some container
      | [] \<Rightarrow> parentElement applyBtn)"

subsection \<open>Creating and inserting the control\<close>

text \<open>
  What the browser decides when \<open>createButton\<close> runs: the value of
  \<open>Math.random().toString(36).substr(2, 9)\<close> and the layout measures the new elements
  get. \<open>env i\<close> is the decision for the element created with identity \<open>i\<close>.
\<close>

record creation =
  random_suffix :: string
  box_width :: nat
  box_height :: nat
  box_rects :: nat

text \<open>
  The control as a subtree: a \<open>button\<close> with the id, classes and title of
  \<open>createButton\<close>, and the nodes its markup \<open><span>+</span> Track\<close> parses to.
\<close>

definition control_element :: "(nat \<Rightarrow> creation) \<Rightarrow> nat \<Rightarrow> element" where
  "control_element env i =
     \<lparr> eid = i, tagName = ''button'',
       classNames = classList (createButton (random_suffix (env i))),
       attributes = [(''id'', ident (createButton (random_suffix (env i)))),
                     (''title'', title (createButton (random_suffix (env i))))],
       offsetWidth = box_width (env i), offsetHeight = box_height (env i),
       clientRects = box_rects (env i) \<rparr>"

definition span_element :: "(nat \<Rightarrow> creation) \<Rightarrow> nat \<Rightarrow> element" where
  "span_element env i =
     \<lparr> eid = i, tagName = ''span'', classNames = [], attributes = [],
       offsetWidth = box_width (env i), offsetHeight = box_height (env i),
       clientRects = box_rects (env i) \<rparr>"

definition trackBtn_node :: "(nat \<Rightarrow> creation) \<Rightarrow> nat \<Rightarrow> node" where
  "trackBtn_node env i =
     Element (control_element env i)
       [Element (span_element env (Suc i)) [Text (js ''+'')], Text (js '' Track'')]"

text \<open>An identity no element of the document has.\<close>

definition fresh :: "node \<Rightarrow> nat" where
  "fresh d = Suc (fold max (map (\<lambda>x. eid (fst x)) (entries [] d)) 0)"

definition TRACK_SELECTOR :: selector where
  "TRACK_SELECTOR = [[AttrPrefixSel ''id'' BUTTON_ID_PREFIX]]"

text \<open>
  The callback of \<open>applyButtons.forEach\<close> for the apply button with identity
  \<open>applyBtn\<close>. (The \<open>log\<close> call only writes to the console.)
\<close>

definition inject_one :: "(nat \<Rightarrow> creation) \<Rightarrow> nat \<Rightarrow> node \<Rightarrow> node" where
  "inject_one env applyBtn d =
     (case entry_of d applyBtn of
        None \<Rightarrow> d
      | Some btn \<Rightarrow>
          if getAttribute (fst btn) PROCESSED_ATTR = Some ''true'' then d
          else
            (case findInjectionContainer btn of
               None \<Rightarrow> d
             | Some container \<Rightarrow>
                 if element_querySelector d (eid container) TRACK_SELECTOR \<noteq> None
                 then setAttribute applyBtn PROCESSED_ATTR ''true'' d
                 else
                   let trackBtn = trackBtn_node env (fresh d) in
                   setAttribute applyBtn PROCESSED_ATTR ''true''
                     (if parent_id btn = Some (eid container)
                      then insertInto (eid container) (Some applyBtn) trackBtn d
                      else insertInto (eid container) None trackBtn d)))"

text \<open>
  \<open>injectButtons\<close>: the callback it hands to \<open>requestAnimationFrame\<close>, which is the
  scan.
\<close>

definition injectButtons :: "(nat \<Rightarrow> creation) \<Rightarrow> node \<Rightarrow> node" where
  "injectButtons env d =
     (let applyButtons = findApplyButtons d in
      if length applyButtons = 0 then d
      else fold (inject_one env) applyButtons d)"

section \<open>The injector of src/extension/content.js\<close>

text \<open>A selector list \<open>a, b\<close> matches what one of its selectors matches.\<close>

definition matches_any :: "selector list \<Rightarrow> entry \<Rightarrow> bool" where
  "matches_any sels x = list_ex (\<lambda>sel. matches sel x) sels"

definition APPLY_SELECTORS_ext :: "selector list" where
  "APPLY_SELECTORS_ext =
     [[[ClassSel ''jobs-apply-button'']], [[AttrSel ''data-live-test-job-apply-button'']]]"

definition CONTAINER_SELECTORS_ext :: "selector list" where
  "CONTAINER_SELECTORS_ext =
     [[[ClassSel ''jobs-s-apply'']],
      [[ClassSel ''jobs-unified-top-card__content--two-pane'']],
      [[ClassSel ''mt5'']],
      [[ClassSel ''display-flex'']]]"

text \<open>\<open>btn.dataset.hasTrackButton\<close> is the attribute \<open>data-has-track-button\<close>.\<close>

definition HAS_TRACK_BUTTON :: string where
  "HAS_TRACK_BUTTON = ''data-has-track-button''"

fun closest_any :: "selector list \<Rightarrow> element list \<Rightarrow> element option" where
  "closest_any sels [] = None"
| "closest_any sels (a # ancs) =
     (if matches_any sels (a, [], ancs) then Some a else closest_any sels ancs)"

text \<open>Its \<open>createButton\<close>: every control has the id \<open>jt-track-btn\<close> and a text label.\<close>

definition control_element_ext :: "(nat \<Rightarrow> creation) \<Rightarrow> nat \<Rightarrow> element" where
  "control_element_ext env i =
     \<lparr> eid = i, tagName = ''button'', classNames = [''jt-track-btn''],
       attributes = [(''id'', ''jt-track-btn'')],
       offsetWidth = box_width (env i), offsetHeight = box_height (env i),
       clientRects = box_rects (env i) \<rparr>"

definition trackBtn_node_ext :: "(nat \<Rightarrow> creation) \<Rightarrow> nat \<Rightarrow> node" where
  "trackBtn_node_ext env i = Element (control_element_ext env i) [Text TEXT_TRACK_APPLICATION]"

text \<open>\<open>btn.closest('.jobs-s-apply, ...') || btn.parentElement\<close>\<close>

definition findContainer_ext :: "entry \<Rightarrow> element option" where
  "findContainer_ext btn =
     orElse (closest_any CONTAINER_SELECTORS_ext (fst btn # ancestors btn)) (parentElement btn)"

text \<open>
  The callback of \<open>applyButtons.forEach\<close>. The control goes into \<open>btn.parentNode\<close>,
  right after \<open>btn\<close>, in both branches of the source. When \<open>btn\<close> is the root element
  its parent node is the document, which takes no second element: the insertion
  throws.
\<close>

datatype dom_error = HierarchyRequestError

definition inject_one_ext :: "(nat \<Rightarrow> creation) \<Rightarrow> nat \<Rightarrow> node \<Rightarrow> dom_error + node" where
  "inject_one_ext env b d =
     (case entry_of d b of
        None \<Rightarrow> Inr d
      | Some btn \<Rightarrow>
          if getAttribute (fst btn) HAS_TRACK_BUTTON = Some ''true'' then Inr d
          else
            (case findContainer_ext btn of
               None \<Rightarrow> Inr d
             | Some container \<Rightarrow>
                 (case parent_id btn of
                    None \<Rightarrow> Inl HierarchyRequestError
                  | Some p \<Rightarrow>
                      Inr (setAttribute b HAS_TRACK_BUTTON ''true''
                             (insertInto p (Some b) (trackBtn_node_ext env (fresh d)) d)))))"

text \<open>The loop; an exception leaves it with the document as it is by then.\<close>

fun forEach_ext :: "(nat \<Rightarrow> creation) \<Rightarrow> nat list \<Rightarrow> node \<Rightarrow> node \<times> dom_error option" where
  "forEach_ext env [] d = (d, None)"
| "forEach_ext env (b # bs) d =
     (case inject_one_ext env b d of
        Inl err \<Rightarrow> (d, Some err)
      | Inr d' \<Rightarrow> forEach_ext env bs d')"

text \<open>\<open>document.querySelectorAll('.jobs-apply-button, [data-live-test-job-apply-button]')\<close>\<close>

definition applyButtons_ext :: "node \<Rightarrow> nat list" where
  "applyButtons_ext d =
     map (\<lambda>x. eid (fst x)) (filter (matches_any APPLY_SELECTORS_ext) (entries [] d))"

definition injectButton_ext :: "(nat \<Rightarrow> creation) \<Rightarrow> node \<Rightarrow> node \<times> dom_error option" where
  "injectButton_ext env d = forEach_ext env (applyButtons_ext d) d"

section \<open>Notions for the injector's properties\<close>

text \<open>
  The identities of a document's elements, in document order. In a document of the
  browser they are distinct.
\<close>

definition ids :: "node \<Rightarrow> nat list" where
  "ids d = map (\<lambda>x. eid (fst x)) (entries [] d)"

definition well_formed :: "node \<Rightarrow> bool" where
  "well_formed d \<longleftrightarrow> distinct (ids d)"

text \<open>How \<open>setAttribute\<close> changes a reference.\<close>

definition mark_entry :: "nat \<Rightarrow> string \<Rightarrow> string \<Rightarrow> entry \<Rightarrow> entry" where
  "mark_entry i name v x = (set_on i name v (fst x), fst (snd x), map (set_on i name v) (ancestors x))"

text \<open>How an insertion changes a reference to an element that was there: its text is
  unchanged or holds a character \<open>p\<close> of the inserted text.\<close>

definition kept :: "16 word \<Rightarrow> entry \<Rightarrow> entry \<Rightarrow> bool" where
  "kept p x x' \<longleftrightarrow>
     fst x' = fst x \<and> ancestors x' = ancestors x
     \<and> (fst (snd x') = fst (snd x) \<or> p \<in> set (fst (snd x')))"

text \<open>The elements \<open>findApplyButtons\<close> returns: visible, and matched by a selector of
  Strategy 1 or by the text test of Strategy 2.\<close>

definition affordance :: "entry \<Rightarrow> bool" where
  "affordance x \<longleftrightarrow>
     isVisible (fst x)
     \<and> ((\<exists>sel\<in>set APPLY_BTN_SELECTORS. matches sel x)
        \<or> (matches [[TagSel ''button'']] x
           \<and> ''artdeco-button'' \<in> set (classNames (fst x))
           \<and> (toLowerCase (trim (fst (snd x))) = js ''apply''
              \<or> toLowerCase (trim (fst (snd x))) = js ''easy apply'')))"

definition text_is_apply :: "entry \<Rightarrow> bool" where
  "text_is_apply x \<longleftrightarrow>
     toLowerCase (trim (fst (snd x))) = js ''apply''
     \<or> toLowerCase (trim (fst (snd x))) = js ''easy apply''"

text \<open>\<open>applyBtn.getAttribute(PROCESSED_ATTR) === "true"\<close>, the insertion container of an
  apply button, and \<open>container.querySelector('[id^="jt-track-btn-"]')\<close> being non-null.\<close>

definition processed :: "node \<Rightarrow> nat \<Rightarrow> bool" where
  "processed d a =
     (case entry_of d a of
        None \<Rightarrow> False
      | Some x \<Rightarrow> getAttribute (fst x) PROCESSED_ATTR = Some ''true'')"

definition container_of :: "node \<Rightarrow> nat \<Rightarrow> nat option" where
  "container_of d a =
     (case entry_of d a of
        None \<Rightarrow> None
      | Some x \<Rightarrow> map_option eid (findInjectionContainer x))"

definition has_control :: "node \<Rightarrow> nat \<Rightarrow> bool" where
  "has_control d c \<longleftrightarrow> element_querySelector d c TRACK_SELECTOR \<noteq> None"

text \<open>An apply button for which a scan creates a control, if no earlier button of the
  scan has filled its container: unmarked, with a container that holds no control.\<close>

definition qualifies :: "node \<Rightarrow> nat \<Rightarrow> bool" where
  "qualifies d a \<longleftrightarrow>
     \<not> processed d a
     \<and> (case container_of d a of None \<Rightarrow> False | Some c \<Rightarrow> \<not> has_control d c)"

text \<open>The injected controls of a document, and those that are children of \<open>c\<close>.\<close>

definition controls :: "node \<Rightarrow> entry list" where
  "controls d = querySelectorAll d TRACK_SELECTOR"

definition controls_in :: "node \<Rightarrow> nat \<Rightarrow> entry list" where
  "controls_in d c = filter (\<lambda>x. parent_id x = Some c) (controls d)"

text \<open>A selector that does not read the attribute \<open>name\<close>.\<close>

fun mentions :: "string \<Rightarrow> simple_selector \<Rightarrow> bool" where
  "mentions name (TagSel t) = False"
| "mentions name (ClassSel c) = False"
| "mentions name (IdSel i) = (name = ''id'')"
| "mentions name (AttrSel a) = (name = a)"
| "mentions name (AttrPrefixSel a p) = (name = a)"

definition ignores :: "string \<Rightarrow> selector \<Rightarrow> bool" where
  "ignores name sel \<longleftrightarrow> (\<forall>c\<in>set sel. \<forall>s\<in>set c. \<not> mentions name s)"

text \<open>Marking an apply button as processed.\<close>

abbreviation mark :: "nat \<Rightarrow> node \<Rightarrow> node" where
  "mark a d \<equiv> setAttribute a PROCESSED_ATTR ''true'' d"

text \<open>What every step of a scan keeps.\<close>

definition extends :: "node \<Rightarrow> node \<Rightarrow> bool" where
  "extends d d' \<longleftrightarrow>
     distinct (ids d') \<and> set (ids d) \<subseteq> set (ids d')
     \<and> (\<forall>x\<in>set (ids d). container_of d' x = container_of d x)
     \<and> (\<forall>x. processed d x \<longrightarrow> processed d' x)
     \<and> (\<forall>c. has_control d c \<longrightarrow> has_control d' c)
     \<and> (\<forall>z'\<in>set (entries [] d'). affordance z' \<longrightarrow>
           (\<exists>z\<in>set (entries [] d). eid (fst z) = eid (fst z') \<and> affordance z))"

text \<open>The same notions for src/extension/content.js.\<close>

definition controls_in_ext :: "node \<Rightarrow> nat \<Rightarrow> entry list" where
  "controls_in_ext d c =
     filter (\<lambda>x. parent_id x = Some c) (querySelectorAll d [[IdSel ''jt-track-btn'']])"

definition container_of_ext :: "node \<Rightarrow> nat \<Rightarrow> nat option" where
  "container_of_ext d b =
     (case entry_of d b of None \<Rightarrow> None | Some x \<Rightarrow> map_option eid (findContainer_ext x))"

definition marked_ext :: "node \<Rightarrow> nat \<Rightarrow> bool" where
  "marked_ext d b =
     (case entry_of d b of
        None \<Rightarrow> False
      | Some x \<Rightarrow> getAttribute (fst x) HAS_TRACK_BUTTON = Some ''true'')"

text \<open>Its controls, and the apply buttons for which its scan creates one: unmarked, with
  a container.\<close>

definition controls_ext :: "node \<Rightarrow> entry list" where
  "controls_ext d = querySelectorAll d [[IdSel ''jt-track-btn'']]"

definition qualifies_ext :: "node \<Rightarrow> nat \<Rightarrow> bool" where
  "qualifies_ext d b \<longleftrightarrow> \<not> marked_ext d b \<and> container_of_ext d b \<noteq> None"

definition parent_of :: "node \<Rightarrow> nat \<Rightarrow> nat option" where
  "parent_of d b = (case entry_of d b of None \<Rightarrow> None | Some x \<Rightarrow> parent_id x)"

text \<open>The apply button on which the scan throws: unmarked, with a container, the root.\<close>

definition throws_ext :: "node \<Rightarrow> nat \<Rightarrow> bool" where
  "throws_ext d b \<longleftrightarrow>
     \<not> marked_ext d b \<and> container_of_ext d b \<noteq> None \<and> parent_of d b = None"

definition extends_ext :: "node \<Rightarrow> node \<Rightarrow> bool" where
  "extends_ext d d' \<longleftrightarrow>
     distinct (ids d') \<and> set (ids d) \<subseteq> set (ids d')
     \<and> (\<forall>x\<in>set (ids d). container_of_ext d' x = container_of_ext d x)
     \<and> (\<forall>x\<in>set (ids d). parent_of d' x = parent_of d x)
     \<and> (\<forall>x. marked_ext d x \<longrightarrow> marked_ext d' x)
     \<and> set (applyButtons_ext d') \<subseteq> set (applyButtons_ext d)"

abbreviation mark_ext :: "nat \<Rightarrow> node \<Rightarrow> node" where
  "mark_ext b d \<equiv> setAttribute b HAS_TRACK_BUTTON ''true'' d"

section \<open>Example pages and settings\<close>

definition plain :: "nat \<Rightarrow> string \<Rightarrow> string list \<Rightarrow> (string \<times> string) list \<Rightarrow> element" where
  "plain i t cs as = \<lparr> eid = i, tagName = t, classNames = cs, attributes = as,
      offsetWidth = 80, offsetHeight = 24, clientRects = 1 \<rparr>"

definition job_location :: location where
  "job_location = \<lparr> href = js ''https://www.linkedin.com/jobs/view/1/'', search = [] \<rparr>"

text \<open>A job page whose description has 250 characters.\<close>

definition long_page :: page where
  "long_page = \<lparr> document = Element (plain 0 ''html'' [] [])
       [Element (plain 1 ''div'' [] [(''id'', ''job-details'')]) [Text (replicate 250 0x61)]],
     location = job_location \<rparr>"

text \<open>A job page with a title and a short description.\<close>

definition short_page :: page where
  "short_page = \<lparr> document = Element (plain 0 ''html'' [] [])
       [Element (plain 1 ''h1'' [] []) [Text (js '' Engineer '')],
        Element (plain 2 ''div'' [] [(''id'', ''job-details'')]) [Text (js '' Build things '')]],
     location = job_location \<rparr>"

text \<open>A page on which no title, company or description locator matches.\<close>

definition bare_page :: page where
  "bare_page = \<lparr> document = Element (plain 0 ''html'' [] [])
       [Element (plain 1 ''p'' [] []) [Text (js ''Loading'')]],
     location = job_location \<rparr>"

text \<open>An empty page at \<open>https://www.linkedin.com\<close> followed by a path and a query string.\<close>

definition at_address :: "string \<Rightarrow> string \<Rightarrow> page" where
  "at_address path query =
     \<lparr> document = Element (plain 0 ''html'' [] []) [],
       location = \<lparr> href = js (''https://www.linkedin.com'' @ path @ query), search = js query \<rparr> \<rparr>"

definition API :: jsstring where
  "API = js ''http://localhost:8000''"

definition db_down :: json where
  "db_down = JObject [(js ''error'', JString (js ''db down''))]"

definition sending_world :: world where
  "sending_world = fst (trackJob_send (Some API) short_page (new_world ''k3j9x0a1b''))"

text \<open>
  A submission the backend rejects, a retry at once (the control is enabled again as
  soon as the error shows), the backend's OK, and then the timer of the error.
\<close>

definition stale_timer_trace :: "event list" where
  "stale_timer_trace =
     [Click (Some API) short_page, Settles (Resolved False None),
      Click (Some API) short_page, Settles (Resolved True None),
      TimerFires]"

text \<open>The browser's choices when a control is created.\<close>

definition env0 :: "nat \<Rightarrow> creation" where
  "env0 i = \<lparr> random_suffix = ''k3j9x0a1b'', box_width = 80, box_height = 24, box_rects = 1 \<rparr>"

text \<open>Two apply buttons next to each other in one \<open>.jobs-s-apply\<close> container.\<close>

definition siblings_doc :: node where
  "siblings_doc = Element (plain 0 ''html'' [] [])
     [Element (plain 1 ''div'' [''jobs-s-apply''] [])
        [Element (plain 2 ''button'' [''jobs-apply-button''] []) [Text (js ''Easy Apply'')],
         Element (plain 3 ''button'' [''jobs-apply-button''] []) [Text (js ''Apply'')]]]"

text \<open>A document whose root element is itself an apply button and its own container.\<close>

definition root_button_doc :: node where
  "root_button_doc = Element (plain 0 ''html'' [''jobs-apply-button'', ''mt5''] []) []"

section \<open>Properties of the scraper\<close>

lemmas page_eval = long_page_def short_page_def bare_page_def job_location_def plain_def
  titleEl_def companyEl_def descEl_def titleEl_ext_def
  querySelector_def matches_def ancestors_def matches_compound_def getAttribute_def
  trimmed_text_def trim_def is_space_def js_def

lemma orElse_None [simp]: "orElse a b = None \<longleftrightarrow> a = None \<and> b = None"
  by (cases a) simp_all

lemma long_desc: "trimmed_text (descEl (document long_page)) [] = replicate 250 0x61"
  by (simp add: page_eval)

lemma short_desc: "trimmed_text (descEl (document short_page)) [] = js ''Build things''"
  by (simp add: page_eval)

lemma bare_none:
  "titleEl (document bare_page) = None"
  "companyEl (document bare_page) = None"
  "descEl (document bare_page) = None"
  by (simp_all add: page_eval)

lemma short_title: "job_title (scrapeJobData short_page) = js ''Engineer''"
  by (simp add: scrapeJobData_def Let_def page_eval)

lemma bare_job_title: "job_title (scrapeJobData bare_page) = js ''Unknown Position''"
  by (simp add: scrapeJobData_def Let_def trimmed_text_def bare_none)

text \<open>
  C1. The scraped description is \<open>descEl\<close>'s trimmed text, or the empty string. If it
  has more than 200 code units, both scrapers return its first 200 followed by the
  one-unit ellipsis, 201 in all; if it has at most 200, they return it unchanged.
\<close>

theorem description_truncated:
  "(200 < length (trimmed_text (descEl (document pg)) []) \<longrightarrow>
      description (scrapeJobData pg) = take 200 (trimmed_text (descEl (document pg)) []) @ [0x2026]
    \<and> length (description (scrapeJobData pg)) = 201
    \<and> description (scrapeJobData_ext pg) = description (scrapeJobData pg))
 \<and> (length (trimmed_text (descEl (document pg)) []) \<le> 200 \<longrightarrow>
      description (scrapeJobData pg) = trimmed_text (descEl (document pg)) []
    \<and> description (scrapeJobData_ext pg) = trimmed_text (descEl (document pg)) [])"
  by (simp add: scrapeJobData_def scrapeJobData_ext_def Let_def ellipsis_def)

theorem description_truncated_witness:
  "description (scrapeJobData long_page) = replicate 200 0x61 @ [0x2026]
   \<and> description (scrapeJobData_ext long_page) = replicate 200 0x61 @ [0x2026]
   \<and> description (scrapeJobData short_page) = js ''Build things''
   \<and> description (scrapeJobData_ext short_page) = js ''Build things''"
  using description_truncated [of long_page] description_truncated [of short_page]
  by (simp add: long_desc short_desc js_def)

text \<open>The locators of one field are tried in order; none matches when each finds nothing.\<close>

lemma companyEl_None_iff:
  "companyEl d = None \<longleftrightarrow>
     querySelector d [[ClassSel ''job-details-jobs-unified-top-card__company-name''], [TagSel ''a'']] = None
   \<and> querySelector d [[ClassSel ''jobs-unified-top-card__company-name''], [TagSel ''a'']] = None
   \<and> querySelector d [[ClassSel ''job-details-jobs-unified-top-card__company-name'']] = None
   \<and> querySelector d [[ClassSel ''jobs-unified-top-card__company-name'']] = None"
  by (simp add: companyEl_def)

lemma titleEl_None_iff:
  "titleEl d = None \<longleftrightarrow>
     querySelector d [[ClassSel ''job-details-jobs-unified-top-card__job-title''], [TagSel ''h1'']] = None
   \<and> querySelector d [[ClassSel ''jobs-unified-top-card__job-title'']] = None
   \<and> querySelector d [[ClassSel ''job-details-jobs-unified-top-card__job-title'']] = None
   \<and> querySelector d [[TagSel ''h1'', ClassSel ''t-24'']] = None
   \<and> querySelector d [[TagSel ''h1'']] = None"
  by (simp add: titleEl_def)

lemma descEl_None_iff:
  "descEl d = None \<longleftrightarrow>
     querySelector d [[ClassSel ''jobs-description__content''], [ClassSel ''jobs-box__html-content'']] = None
   \<and> querySelector d [[ClassSel ''jobs-description-content__text'']] = None
   \<and> querySelector d [[IdSel ''job-details'']] = None"
  by (simp add: descEl_def)

text \<open>
  C5, as amended. When no company locator matches, the content script of
  src/unnamed/part_000 returns the company \<open>Unknown Company\<close> and the one of
  src/extension/content.js returns the empty string. When no description locator
  matches, both return the empty description.
\<close>

theorem missing_company_and_description:
  "(companyEl (document pg) = None \<longrightarrow>
      company (scrapeJobData pg) = js ''Unknown Company'' \<and> company (scrapeJobData_ext pg) = [])
 \<and> (descEl (document pg) = None \<longrightarrow>
      description (scrapeJobData pg) = [] \<and> description (scrapeJobData_ext pg) = [])"
  by (simp add: scrapeJobData_def scrapeJobData_ext_def Let_def trimmed_text_def)

theorem missing_company_and_description_witness:
  "company (scrapeJobData bare_page) = js ''Unknown Company''
   \<and> company (scrapeJobData_ext bare_page) = []
   \<and> description (scrapeJobData bare_page) = []
   \<and> description (scrapeJobData_ext bare_page) = []"
  using missing_company_and_description [of bare_page] by (simp add: bare_none)

text \<open>
  C5 as stated fails for the scraper of src/extension/content.js: on a page where no
  company locator matches, its company is not the sentinel.
\<close>

theorem ext_missing_company_not_sentinel:
  "companyEl (document bare_page) = None
   \<and> company (scrapeJobData_ext bare_page) \<noteq> js ''Unknown Company''"
  by (simp add: bare_none scrapeJobData_ext_def Let_def trimmed_text_def js_def)

lemmas address_eval = at_address_def currentJobId_def URLSearchParams_def params_get_def
  form_decode_def startsWith_def hex_digit_def js_def

lemma id_search:
  "currentJobId (at_address ''/jobs/search/'' ''?currentJobId=4012345678&start=25'')
     = Some (js ''4012345678'')"
  by (simp add: address_eval)

lemma id_collections:
  "currentJobId (at_address ''/jobs/collections/recommended/'' ''?keywords=dev&currentJobId=4012345678'')
     = Some (js ''4012345678'')"
  by (simp add: address_eval)

lemma id_empty_search:
  "currentJobId (at_address ''/jobs/search/'' ''?currentJobId=&start=25'') = Some []"
  by (simp add: address_eval)

lemma id_empty_collections:
  "currentJobId (at_address ''/jobs/collections/recommended/'' ''?currentJobId='') = Some []"
  by (simp add: address_eval)

lemma id_absent: "currentJobId (at_address ''/jobs/view/4012345678/'' ''?trk=feed'') = None"
  by (simp add: address_eval)

lemma href_stripped:
  "takeWhile (\<lambda>c. c \<noteq> 0x3F) (href (location (at_address ''/jobs/view/4012345678/'' ''?trk=feed'')))
     = js ''https://www.linkedin.com/jobs/view/4012345678/''"
  "takeWhile (\<lambda>c. c \<noteq> 0x3F) (href (location (at_address ''/jobs/search/'' ''?currentJobId=&start=25'')))
     = js ''https://www.linkedin.com/jobs/search/''"
  "takeWhile (\<lambda>c. c \<noteq> 0x3F) (href (location (at_address ''/jobs/collections/recommended/'' ''?currentJobId='')))
     = js ''https://www.linkedin.com/jobs/collections/recommended/''"
  by (simp_all add: at_address_def js_def)

text \<open>
  C4, as amended. In the content script of src/unnamed/part_000, when the address
  carries a \<open>currentJobId\<close> parameter with a non-empty value \<open>i\<close>, the url is
  \<open>https://www.linkedin.com/jobs/view/\<close>\<open>i\<close>\<open>/\<close>, so two addresses with the same non-empty
  identifier give the same url whatever else they hold. When the parameter is absent or
  its value is empty, the url is the address up to its first \<open>?\<close>. The scraper of
  src/extension/content.js always returns the address up to its first \<open>?\<close>.
\<close>

theorem url_from_job_identifier:
  "(currentJobId pg = Some i \<and> i \<noteq> [] \<longrightarrow>
      url (scrapeJobData pg) = js ''https://www.linkedin.com/jobs/view/'' @ i @ js ''/'')
 \<and> (currentJobId pg = Some i \<and> currentJobId pg' = Some i \<and> i \<noteq> [] \<longrightarrow>
      url (scrapeJobData pg) = url (scrapeJobData pg'))
 \<and> (currentJobId pg = None \<or> currentJobId pg = Some [] \<longrightarrow>
      url (scrapeJobData pg) = takeWhile (\<lambda>c. c \<noteq> 0x3F) (href (location pg)))
 \<and> url (scrapeJobData_ext pg) = takeWhile (\<lambda>c. c \<noteq> 0x3F) (href (location pg))"
  by (auto simp: scrapeJobData_def scrapeJobData_ext_def Let_def)

theorem url_from_job_identifier_witness:
  "url (scrapeJobData (at_address ''/jobs/search/'' ''?currentJobId=4012345678&start=25''))
      = js ''https://www.linkedin.com/jobs/view/4012345678/''
   \<and> url (scrapeJobData (at_address ''/jobs/search/'' ''?currentJobId=4012345678&start=25''))
      = url (scrapeJobData (at_address ''/jobs/collections/recommended/'' ''?keywords=dev&currentJobId=4012345678''))
   \<and> url (scrapeJobData (at_address ''/jobs/view/4012345678/'' ''?trk=feed''))
      = js ''https://www.linkedin.com/jobs/view/4012345678/''"
proof -
  have "js ''4012345678'' \<noteq> []"
    by (simp add: js_def)
  with url_from_job_identifier [of "at_address ''/jobs/search/'' ''?currentJobId=4012345678&start=25''"
      "js ''4012345678''" "at_address ''/jobs/collections/recommended/'' ''?keywords=dev&currentJobId=4012345678''"]
  have "url (scrapeJobData (at_address ''/jobs/search/'' ''?currentJobId=4012345678&start=25''))
      = js ''https://www.linkedin.com/jobs/view/'' @ js ''4012345678'' @ js ''/''"
    and "url (scrapeJobData (at_address ''/jobs/search/'' ''?currentJobId=4012345678&start=25''))
      = url (scrapeJobData (at_address ''/jobs/collections/recommended/'' ''?keywords=dev&currentJobId=4012345678''))"
    by (auto simp: id_search id_collections)
  moreover have "url (scrapeJobData (at_address ''/jobs/view/4012345678/'' ''?trk=feed''))
      = js ''https://www.linkedin.com/jobs/view/4012345678/''"
    using url_from_job_identifier [of "at_address ''/jobs/view/4012345678/'' ''?trk=feed''" "[]"]
    by (simp add: id_absent href_stripped)
  ultimately show ?thesis
    by (simp add: js_def)
qed

text \<open>
  C4 as stated fails when the parameter is present with an empty value: two such
  addresses carry the same identifier and get different urls.
\<close>

theorem empty_job_identifier_not_canonical:
  "currentJobId (at_address ''/jobs/search/'' ''?currentJobId=&start=25'') = Some []
   \<and> currentJobId (at_address ''/jobs/collections/recommended/'' ''?currentJobId='') = Some []
   \<and> url (scrapeJobData (at_address ''/jobs/search/'' ''?currentJobId=&start=25''))
      \<noteq> url (scrapeJobData (at_address ''/jobs/collections/recommended/'' ''?currentJobId=''))"
proof -
  have "url (scrapeJobData (at_address ''/jobs/search/'' ''?currentJobId=&start=25''))
      = js ''https://www.linkedin.com/jobs/search/''"
    using id_empty_search
    by (simp add: scrapeJobData_def Let_def href_stripped)
  moreover have "url (scrapeJobData (at_address ''/jobs/collections/recommended/'' ''?currentJobId=''))
      = js ''https://www.linkedin.com/jobs/collections/recommended/''"
    using id_empty_collections
    by (simp add: scrapeJobData_def Let_def href_stripped)
  ultimately show ?thesis
    by (simp add: id_empty_search id_empty_collections js_def)
qed

section \<open>Properties of the submitter\<close>

lemma originalHTML_showFeedback [simp]:
  "originalHTML (button (showFeedback txt ty w)) = originalHTML (button w)"
  by (simp add: showFeedback_def)

lemma originalHTML_revert [simp]:
  "originalHTML (button (revert ty w)) = originalHTML (button w)"
  by (simp add: revert_def)

lemma originalHTML_send [simp]:
  "originalHTML (button (fst (trackJob_send stored pg w))) = originalHTML (button w)"
  by (simp add: trackJob_send_def Let_def)

lemma originalHTML_settle [simp]:
  "originalHTML (button (trackJob_settle outcome w)) = originalHTML (button w)"
  by (cases outcome) (simp_all add: Let_def)

lemma originalHTML_step [simp]:
  "originalHTML (button (step ev w)) = originalHTML (button w)"
proof (cases ev)
  case (Click stored pg)
  have "originalHTML (button (fst (trackJob_send stored pg w))) = originalHTML (button w)"
    by simp
  then show ?thesis
    using Click by (cases "trackJob_send stored pg w") (auto split: bool.splits)
next
  case (Settles outcome)
  then show ?thesis by simp
next
  case TimerFires
  then show ?thesis by (simp split: list.splits prod.splits)
qed

text \<open>No event of a control's life changes the markup saved at its creation.\<close>

lemma originalHTML_run [simp]:
  "originalHTML (button (run evs w)) = originalHTML (button w)"
  by (induction evs arbitrary: w) simp_all

lemma originalHTML_trackJob [simp]:
  "originalHTML (button (trackJob stored pg outcome w)) = originalHTML (button w)"
proof -
  have "originalHTML (button (fst (trackJob_send stored pg w))) = originalHTML (button w)"
    by simp
  then show ?thesis
    unfolding trackJob_def by (cases "trackJob_send stored pg w") (auto split: bool.splits)
qed

lemma revert_created:
  "originalHTML (button w) = originalHTML (createButton suffix) \<Longrightarrow>
     content (button (revert ty w)) = InnerHTML DEFAULT_HTML"
  by (simp add: revert_def createButton_def DEFAULT_HTML_def js_def)

lemma send_short:
  "fst (trackJob_send (Some API) short_page w) =
     w\<lparr> button := (button w)\<lparr> disabled := True,
            originalText := Some (innerHTML (content (button w))),
            content := TextContent TEXT_SAVING \<rparr>,
        requests := requests w @
          [\<lparr> endpoint = API @ js ''/api/jobs'', http_method = ''POST'',
             headers = [(''Content-Type'', ''application/json'')],
             body = scrapeJobData short_page \<rparr>] \<rparr>"
  "snd (trackJob_send (Some API) short_page w) = True"
  by (simp_all add: trackJob_send_def Let_def short_title getApiUrl_def API_def js_def)

text \<open>
  C2. When no title locator matches, the scraped title is the sentinel
  \<open>Unknown Position\<close>. When the scraped title is empty or the sentinel, a run of
  \<open>trackJob\<close> issues no request, whatever base URL is stored, and leaves a warning on
  the control: \<open>Can't read job\<close>, or \<open>Set API URL\<close> when no base URL is stored either.
\<close>

theorem unknown_title_rejected:
  "(titleEl (document pg) = None \<longrightarrow> job_title (scrapeJobData pg) = js ''Unknown Position'')
 \<and> (job_title (scrapeJobData pg) = [] \<or> job_title (scrapeJobData pg) = js ''Unknown Position'' \<longrightarrow>
      requests (trackJob stored pg outcome w) = requests w
    \<and> snd (trackJob_send stored pg w) = False
    \<and> ''jt-warning'' \<in> set (classList (button (trackJob stored pg outcome w)))
    \<and> content (button (trackJob stored pg outcome w)) =
         TextContent (if getApiUrl stored = [] then TEXT_SET_API_URL else TEXT_CANT_READ))"
  by (auto simp: scrapeJobData_def trackJob_def trackJob_send_def showFeedback_def Let_def
        trimmed_text_def classList_add_def)

theorem unknown_title_rejected_witness:
  "job_title (scrapeJobData bare_page) = js ''Unknown Position''
   \<and> requests (trackJob (Some API) bare_page (Resolved True None) (new_world ''k3j9x0a1b'')) = []
   \<and> content (button (trackJob (Some API) bare_page (Resolved True None) (new_world ''k3j9x0a1b'')))
        = TextContent TEXT_CANT_READ"
  using unknown_title_rejected [of bare_page "Some API" "Resolved True None" "new_world ''k3j9x0a1b''"]
  by (simp add: bare_none new_world_def getApiUrl_def API_def js_def)

text \<open>
  C3. When the stored base URL is absent or empty, a run of \<open>trackJob\<close> issues no
  request, shows the warning \<open>Set API URL\<close> with the class \<open>jt-warning\<close>, and schedules
  one callback 2500 ms ahead. Whatever happens to the control before that callback
  runs, it puts the default label of \<open>createButton\<close> back.
\<close>

theorem no_base_url_warns:
  "stored = None \<or> stored = Some [] \<Longrightarrow>
     requests (trackJob stored pg outcome w) = requests w
   \<and> snd (trackJob_send stored pg w) = False
   \<and> content (button (trackJob stored pg outcome w)) = TextContent TEXT_SET_API_URL
   \<and> ''jt-warning'' \<in> set (classList (button (trackJob stored pg outcome w)))
   \<and> timers (trackJob stored pg outcome w) = timers w @ [(2500, ''warning'')]
   \<and> (originalHTML (button w) = originalHTML (createButton suffix) \<longrightarrow>
        content (button (revert ''warning'' (run evs (trackJob stored pg outcome w))))
          = InnerHTML DEFAULT_HTML)"
proof -
  assume s: "stored = None \<or> stored = Some []"
  then have e: "getApiUrl stored = []"
    by (auto simp: getApiUrl_def)
  have t: "trackJob stored pg outcome w = showFeedback TEXT_SET_API_URL ''warning'' w"
    using e by (simp add: trackJob_def trackJob_send_def)
  have "originalHTML (button w) = originalHTML (createButton suffix) \<longrightarrow>
        content (button (revert ''warning'' (run evs (trackJob stored pg outcome w))))
          = InnerHTML DEFAULT_HTML"
    by (simp add: revert_created)
  moreover have "snd (trackJob_send stored pg w) = False"
    using e by (simp add: trackJob_send_def)
  ultimately show ?thesis
    unfolding t by (simp add: showFeedback_def classList_add_def)
qed

theorem no_base_url_warns_witness:
  "requests (trackJob None short_page (Resolved True None) (new_world ''k3j9x0a1b'')) = []
   \<and> content (button (trackJob None short_page (Resolved True None) (new_world ''k3j9x0a1b'')))
        = TextContent TEXT_SET_API_URL
   \<and> timers (trackJob None short_page (Resolved True None) (new_world ''k3j9x0a1b''))
        = [(2500, ''warning'')]
   \<and> content (button (revert ''warning''
        (trackJob None short_page (Resolved True None) (new_world ''k3j9x0a1b''))))
        = InnerHTML DEFAULT_HTML"
  using no_base_url_warns [of None short_page "Resolved True None" "new_world ''k3j9x0a1b''"
      "''k3j9x0a1b''" "[]"]
  by (simp add: new_world_def)

text \<open>
  C8 does not hold of the code. After the fourth event of this trace the control is
  in the success state: disabled, labelled \<open>Tracked!\<close>, marked tracked, and the success
  feedback has scheduled no timer. The one pending timer is that of the error shown
  after the second event, which nothing cancels; when it fires, as the fifth event,
  it enables the control again and puts the idle label back.
\<close>

theorem success_undone_by_stale_timer:
  "disabled (button (run (take 4 stale_timer_trace) (new_world ''k3j9x0a1b''))) = True
   \<and> content (button (run (take 4 stale_timer_trace) (new_world ''k3j9x0a1b''))) = TextContent TEXT_TRACKED
   \<and> tracked (button (run (take 4 stale_timer_trace) (new_world ''k3j9x0a1b''))) = Some ''true''
   \<and> timers (run (take 4 stale_timer_trace) (new_world ''k3j9x0a1b'')) = [(2500, ''error'')]
   \<and> disabled (button (run stale_timer_trace (new_world ''k3j9x0a1b''))) = False
   \<and> content (button (run stale_timer_trace (new_world ''k3j9x0a1b''))) = InnerHTML DEFAULT_HTML
   \<and> tracked (button (run stale_timer_trace (new_world ''k3j9x0a1b''))) = Some ''true''"
  by (simp add: stale_timer_trace_def new_world_def createButton_def
      prod.case_eq_if send_short showFeedback_def revert_def)

text \<open>
  C9. A submission (base URL stored, title usable) whose response is not OK leaves
  the label \<open>Failed\<close> and the class \<open>jt-error\<close> on the control, logs the decoded body,
  or the empty object when decoding fails, and schedules one callback 2500 ms ahead;
  after that callback has run the control is enabled.
\<close>

theorem non_ok_response_shows_error:
  "getApiUrl stored \<noteq> [] \<Longrightarrow>
   job_title (scrapeJobData pg) \<noteq> [] \<Longrightarrow>
   job_title (scrapeJobData pg) \<noteq> js ''Unknown Position'' \<Longrightarrow>
     content (button (trackJob stored pg (Resolved False parsed) w)) = TextContent TEXT_FAILED
   \<and> ''jt-error'' \<in> set (classList (button (trackJob stored pg (Resolved False parsed) w)))
   \<and> console (trackJob stored pg (Resolved False parsed) w)
        = console w @ [ApiError (case parsed of None \<Rightarrow> JObject [] | Some v \<Rightarrow> v)]
   \<and> timers (trackJob stored pg (Resolved False parsed) w) = timers w @ [(2500, ''error'')]
   \<and> disabled (button (revert ''error'' (run evs (trackJob stored pg (Resolved False parsed) w)))) = False"
  by (simp add: trackJob_def trackJob_send_def Let_def showFeedback_def classList_add_def revert_def)

theorem non_ok_response_shows_error_witness:
  "content (button (trackJob (Some API) short_page (Resolved False (Some db_down)) (new_world ''k3j9x0a1b'')))
      = TextContent TEXT_FAILED
   \<and> console (trackJob (Some API) short_page (Resolved False (Some db_down)) (new_world ''k3j9x0a1b''))
      = [ApiError db_down]
   \<and> console (trackJob (Some API) short_page (Resolved False None) (new_world ''k3j9x0a1b''))
      = [ApiError (JObject [])]
   \<and> disabled (button (revert ''error''
        (trackJob (Some API) short_page (Resolved False (Some db_down)) (new_world ''k3j9x0a1b''))))
      = False"
  using non_ok_response_shows_error [of "Some API" short_page "Some db_down" "new_world ''k3j9x0a1b''" "[]"]
    non_ok_response_shows_error [of "Some API" short_page None "new_world ''k3j9x0a1b''" "[]"]
  by (simp add: short_title getApiUrl_def API_def new_world_def js_def)

text \<open>
  C10. A call of \<open>showFeedback\<close> with a type other than \<open>success\<close> returns with the
  control enabled and its revert callback still pending, 2500 ms ahead; so in both
  content scripts.
\<close>

theorem feedback_enables_at_once:
  "ty \<noteq> ''success'' \<Longrightarrow>
     disabled (button (showFeedback txt ty w)) = False
   \<and> timers (showFeedback txt ty w) = timers w @ [(2500, ty)]
   \<and> disabled (button (showFeedback_ext txt ty w)) = False
   \<and> timers (showFeedback_ext txt ty w) = timers w @ [(2500, ty)]"
  by (simp add: showFeedback_def showFeedback_ext_def)

theorem feedback_enables_at_once_witness:
  "disabled (button sending_world) = True
   \<and> disabled (button (showFeedback TEXT_FAILED ''error'' sending_world)) = False
   \<and> timers (showFeedback TEXT_FAILED ''error'' sending_world) = [(2500, ''error'')]
   \<and> disabled (button (showFeedback_ext TEXT_FAILED ''error'' sending_world)) = False"
  using feedback_enables_at_once [of "''error''" TEXT_FAILED sending_world]
  by (simp add: sending_world_def send_short new_world_def)

section \<open>Properties of the injector\<close>

lemma textContent_setAttribute [simp]:
  "textContent (setAttribute i name v t) = textContent t"
  by (induction t) (simp_all cong: map_cong)

lemma entries_setAttribute:
  "entries (map (set_on i name v) ancs) (setAttribute i name v t)
     = map (mark_entry i name v) (entries ancs t)"
proof (induction t arbitrary: ancs)
  case (Text s)
  then show ?case by simp
next
  case (Element e ks)
  have "map (\<lambda>k. entries (set_on i name v e # map (set_on i name v) ancs) (setAttribute i name v k)) ks
      = map (\<lambda>k. map (mark_entry i name v) (entries (e # ancs) k)) ks"
    using Element.IH [of _ "e # ancs"] by (intro map_cong) simp_all
  then show ?case
    by (simp add: mark_entry_def ancestors_def map_concat comp_def cong: map_cong)
qed

lemma entries_ids:
  "map (\<lambda>x. eid (fst x)) (entries ancs t) = map (\<lambda>x. eid (fst x)) (entries ancs' t)"
proof (induction t arbitrary: ancs ancs')
  case (Element e ks)
  have m: "map (\<lambda>k. map (\<lambda>x. eid (fst x)) (entries (e # ancs) k)) ks
      = map (\<lambda>k. map (\<lambda>x. eid (fst x)) (entries (e # ancs') k)) ks"
    by (rule map_cong [OF refl]) (rule Element.IH)
  show ?case by (simp add: map_concat comp_def m)
qed simp

lemma entries_ids_eq: "map (\<lambda>x. eid (fst x)) (entries ancs t) = ids t"
  unfolding ids_def by (rule entries_ids)

lemma ids_Element:
  "ids (Element e ks) = eid e # concat (map ids ks)"
proof -
  have m: "map (\<lambda>k. map (\<lambda>x. eid (fst x)) (entries [e] k)) ks = map ids ks"
    by (rule map_cong [OF refl]) (rule entries_ids_eq)
  show ?thesis
    by (simp add: ids_def map_concat comp_def m)
qed

lemma ids_Text [simp]: "ids (Text t) = []"
  by (simp add: ids_def)

lemma eid_set_on [simp]: "eid (set_on i name v e) = eid e"
  by (simp add: set_on_def)

lemma ids_setAttribute [simp]: "ids (setAttribute i name v t) = ids t"
proof -
  have "ids (setAttribute i name v t) = map (\<lambda>x. eid (fst x)) (map (mark_entry i name v) (entries [] t))"
    using entries_setAttribute [of i name v "[]" t] by (simp add: ids_def)
  also have "\<dots> = ids t"
    by (simp add: ids_def mark_entry_def comp_def)
  finally show ?thesis .
qed

lemma kept_refl [simp]: "kept p x x"
  by (simp add: kept_def)

lemma list_all2_kept_refl [simp]: "list_all2 (kept p) xs xs"
  by (simp add: list_all2_refl)

lemma insertInto_absent: "c \<notin> set (ids t) \<Longrightarrow> insertInto c r n t = t"
proof (induction t)
  case (Element e ks)
  then have "\<And>k. k \<in> set ks \<Longrightarrow> insertInto c r n k = k"
    by (auto simp: ids_Element)
  then have "map (insertInto c r n) ks = ks"
    by (simp add: map_idI)
  with Element.prems show ?case
    by (simp add: ids_Element)
qed simp

lemma place_split: "\<exists>k1 k2. ks = k1 @ k2 \<and> place r n ks = k1 @ n # k2"
proof (induction ks)
  case Nil
  then show ?case by simp
next
  case (Cons k ks)
  show ?case
  proof (cases "is_element r k")
    case True
    then have "k # ks = [k] @ ks \<and> place r n (k # ks) = [k] @ n # ks"
      by simp
    then show ?thesis by blast
  next
    case False
    from Cons obtain k1 k2 where "ks = k1 @ k2" "place r n ks = k1 @ n # k2"
      by blast
    with False have "k # ks = (k # k1) @ k2 \<and> place r n (k # ks) = (k # k1) @ n # k2"
      by simp
    then show ?thesis by blast
  qed
qed

lemma textContent_insertInto:
  "p \<in> set (textContent n) \<Longrightarrow>
     textContent (insertInto c r n t) = textContent t \<or> p \<in> set (textContent (insertInto c r n t))"
proof (induction t)
  case (Text s)
  then show ?case by simp
next
  case (Element e ks)
  show ?case
  proof (cases "eid e = c")
    case True
    obtain k1 k2 where "ks = k1 @ k2" "place r n ks = k1 @ n # k2"
      using place_split by blast
    with True Element.prems show ?thesis by simp
  next
    case False
    show ?thesis
    proof (cases "\<exists>k\<in>set ks. p \<in> set (textContent (insertInto c r n k))")
      case True
      with False show ?thesis by auto
    next
      case False
      with Element have "\<And>k. k \<in> set ks \<Longrightarrow> textContent (insertInto c r n k) = textContent k"
        by blast
      then have m: "map (\<lambda>k. textContent (insertInto c r n k)) ks = map textContent ks"
        by simp
      show ?thesis
        using \<open>eid e \<noteq> c\<close> by (simp add: comp_def m)
    qed
  qed
qed

lemma entry_id_in_ids: "x \<in> set (entries ancs t) \<Longrightarrow> eid (fst x) \<in> set (ids t)"
  using entries_ids_eq [of ancs t] by (metis (no_types, lifting) image_eqI list.set_map)

lemma entries_insertInto:
  assumes "distinct (ids t)" and "y \<in> set (entries ancs t)" and "eid (fst y) = c"
    and "p \<in> set (textContent n)"
  shows "\<exists>xs ys xs' ys'.
           entries ancs t = xs @ ys
         \<and> entries ancs (insertInto c r n t) = xs' @ entries (fst y # ancestors y) n @ ys'
         \<and> list_all2 (kept p) xs xs' \<and> list_all2 (kept p) ys ys'"
  using assms(1-3)
proof (induction t arbitrary: ancs)
  case (Text s)
  then show ?case by simp
next
  case (Element e ks)
  let ?E = "entries (e # ancs)"
  let ?root = "(e, concat (map textContent ks), ancs)"
  show ?case
  proof (cases "eid e = c")
    case True
    have "y \<notin> set (concat (map ?E ks))"
    proof
      assume "y \<in> set (concat (map ?E ks))"
      then obtain k where "k \<in> set ks" "y \<in> set (?E k)"
        by auto
      then have "c \<in> set (concat (map ids ks))"
        using entry_id_in_ids [of y "e # ancs" k] Element.prems(3) by auto
      with True Element.prems(1) show False
        by (simp add: ids_Element)
    qed
    with Element.prems(2) have y: "y = ?root"
      by simp
    obtain k1 k2 where k: "ks = k1 @ k2" "place r n ks = k1 @ n # k2"
      using place_split by blast
    let ?root' = "(e, concat (map textContent (k1 @ n # k2)), ancs)"
    have "kept p ?root ?root'"
      using assms(4) by (simp add: kept_def ancestors_def)
    then have "list_all2 (kept p) (?root # concat (map ?E k1)) (?root' # concat (map ?E k1))"
      by simp
    moreover have "entries ancs (Element e ks) = (?root # concat (map ?E k1)) @ concat (map ?E k2)"
      using k by simp
    moreover have "entries ancs (insertInto c r n (Element e ks))
        = (?root' # concat (map ?E k1)) @ entries (fst y # ancestors y) n @ concat (map ?E k2)"
      using k True y by (simp add: ancestors_def)
    ultimately show ?thesis
      using list_all2_kept_refl by blast
  next
    case False
    with Element.prems(2,3) have "y \<in> set (concat (map ?E ks))"
      by auto
    then obtain k where kin: "k \<in> set ks" and yk: "y \<in> set (?E k)"
      by auto
    from kin obtain l1 l2 where ks: "ks = l1 @ k # l2"
      by (meson split_list)
    have ck: "c \<in> set (ids k)"
      using entry_id_in_ids [OF yk] Element.prems(3) by simp
    from Element.prems(1) have d: "distinct (concat (map ids l1) @ ids k @ concat (map ids l2))"
      by (simp add: ids_Element ks)
    then have dk: "distinct (ids k)"
      by simp
    have other: "insertInto c r n k' = k'" if "k' \<in> set l1 \<union> set l2" for k'
    proof (rule insertInto_absent)
      show "c \<notin> set (ids k')"
        using that d ck by auto
    qed
    then have m: "map (insertInto c r n) ks = l1 @ insertInto c r n k # l2"
      by (simp add: ks map_idI)
    from Element.IH [OF kin dk yk Element.prems(3)]
    obtain xs ys xs' ys' where ih: "?E k = xs @ ys"
      "?E (insertInto c r n k) = xs' @ entries (fst y # ancestors y) n @ ys'"
      "list_all2 (kept p) xs xs'" "list_all2 (kept p) ys ys'"
      by blast
    let ?root' = "(e, concat (map textContent (l1 @ insertInto c r n k # l2)), ancs)"
    have "kept p ?root ?root'"
      using textContent_insertInto [OF assms(4), of c r k]
      by (auto simp: kept_def ancestors_def ks)
    then have "list_all2 (kept p) (?root # concat (map ?E l1) @ xs) (?root' # concat (map ?E l1) @ xs')"
      using ih(3) by (simp add: list_all2_appendI)
    moreover have "list_all2 (kept p) (ys @ concat (map ?E l2)) (ys' @ concat (map ?E l2))"
      using ih(4) by (simp add: list_all2_appendI)
    moreover have "entries ancs (Element e ks)
        = (?root # concat (map ?E l1) @ xs) @ (ys @ concat (map ?E l2))"
      using ih(1) by (simp add: ks)
    moreover have "entries ancs (insertInto c r n (Element e ks))
        = (?root' # concat (map ?E l1) @ xs') @ entries (fst y # ancestors y) n
            @ (ys' @ concat (map ?E l2))"
      using ih(2) False by (simp add: m)
    ultimately show ?thesis
      by blast
  qed
qed

lemma set_found_add [simp]: "set (found_add i found) = insert i (set found)"
  by (auto simp: found_add_def)

lemma set_by_selector:
  "set (by_selector d sel found)
     = set found \<union> (\<lambda>x. eid (fst x)) ` {x \<in> set (entries [] d). matches sel x \<and> isVisible (fst x)}"
proof -
  have "set (fold (\<lambda>btn acc. if isVisible (fst btn) then found_add (eid (fst btn)) acc else acc) xs found)
      = set found \<union> (\<lambda>x. eid (fst x)) ` {x \<in> set xs. isVisible (fst x)}" for xs
    by (induction xs arbitrary: found) auto
  then have "set (by_selector d sel found)
      = set found \<union> (\<lambda>x. eid (fst x)) ` {x \<in> set (querySelectorAll d sel). isVisible (fst x)}"
    by (simp add: by_selector_def)
  also have "{x \<in> set (querySelectorAll d sel). isVisible (fst x)}
      = {x \<in> set (entries [] d). matches sel x \<and> isVisible (fst x)}"
    by (auto simp: querySelectorAll_def)
  finally show ?thesis .
qed

lemma set_fold_by_selector:
  "set (fold (by_selector d) sels found)
     = set found \<union> (\<lambda>x. eid (fst x)) ` {x \<in> set (entries [] d).
                        (\<exists>sel\<in>set sels. matches sel x) \<and> isVisible (fst x)}"
proof (induction sels arbitrary: found)
  case Nil
  then show ?case by simp
next
  case (Cons sel sels)
  have "{x \<in> set (entries [] d). (\<exists>s\<in>set (sel # sels). matches s x) \<and> isVisible (fst x)}
      = {x \<in> set (entries [] d). matches sel x \<and> isVisible (fst x)}
        \<union> {x \<in> set (entries [] d). (\<exists>s\<in>set sels. matches s x) \<and> isVisible (fst x)}"
    by auto
  then show ?case
    by (simp add: Cons.IH set_by_selector image_Un Un_assoc)
qed

lemma set_by_text:
  "set (by_text x found)
     = set found \<union> (\<lambda>x. eid (fst x)) ` {z \<in> {x}. ''artdeco-button'' \<in> set (classNames (fst z))
          \<and> text_is_apply z \<and> isVisible (fst z)}"
  by (auto simp: by_text_def Let_def text_is_apply_def)

lemma set_fold_by_text:
  "set (fold by_text xs found)
     = set found \<union> (\<lambda>x. eid (fst x)) ` {x \<in> set xs. ''artdeco-button'' \<in> set (classNames (fst x))
          \<and> text_is_apply x \<and> isVisible (fst x)}"
proof (induction xs arbitrary: found)
  case Nil
  then show ?case by simp
next
  case (Cons x xs)
  have "{z \<in> set (x # xs). ''artdeco-button'' \<in> set (classNames (fst z)) \<and> text_is_apply z \<and> isVisible (fst z)}
      = {z \<in> {x}. ''artdeco-button'' \<in> set (classNames (fst z)) \<and> text_is_apply z \<and> isVisible (fst z)}
        \<union> {z \<in> set xs. ''artdeco-button'' \<in> set (classNames (fst z)) \<and> text_is_apply z \<and> isVisible (fst z)}"
    by auto
  then show ?case
    by (simp only: fold_simps Cons.IH set_by_text image_Un Un_assoc)
qed

lemma affordance_alt:
  "affordance x \<longleftrightarrow>
     ((\<exists>sel\<in>set APPLY_BTN_SELECTORS. matches sel x) \<and> isVisible (fst x))
     \<or> (matches [[TagSel ''button'']] x \<and> ''artdeco-button'' \<in> set (classNames (fst x))
          \<and> text_is_apply x \<and> isVisible (fst x))"
  by (auto simp: affordance_def text_is_apply_def)

lemma set_findApplyButtons:
  "set (findApplyButtons d) = (\<lambda>x. eid (fst x)) ` {x \<in> set (entries [] d). affordance x}"
proof -
  have "{x \<in> set (entries [] d). affordance x}
     = {x \<in> set (entries [] d). (\<exists>sel\<in>set APPLY_BTN_SELECTORS. matches sel x) \<and> isVisible (fst x)}
       \<union> {x \<in> set (querySelectorAll d [[TagSel ''button'']]). ''artdeco-button'' \<in> set (classNames (fst x))
          \<and> text_is_apply x \<and> isVisible (fst x)}"
    unfolding affordance_alt querySelectorAll_def by auto
  then show ?thesis
    unfolding findApplyButtons_def set_fold_by_text set_fold_by_selector
    by (simp add: image_Un)
qed

subsection \<open>Looking an element up\<close>

lemma entry_of_SomeD:
  "entry_of d a = Some x \<Longrightarrow> x \<in> set (entries [] d) \<and> eid (fst x) = a"
  unfolding entry_of_def by (auto simp: find_Some_iff)

lemma entry_of_None: "entry_of d a = None \<longleftrightarrow> a \<notin> set (ids d)"
proof -
  have "entry_of d a = None \<longleftrightarrow> \<not> (\<exists>x\<in>set (entries [] d). eid (fst x) = a)"
    unfolding entry_of_def find_None_iff by blast
  also have "\<dots> \<longleftrightarrow> a \<notin> (\<lambda>x. eid (fst x)) ` set (entries [] d)"
    by blast
  finally show ?thesis
    by (simp add: ids_def)
qed

lemma entry_of_unique:
  assumes "distinct (ids d)" and "x \<in> set (entries [] d)"
  shows "entry_of d (eid (fst x)) = Some x"
proof -
  from assms(2) have "eid (fst x) \<in> set (ids d)"
    by (rule entry_id_in_ids)
  then obtain y where y: "entry_of d (eid (fst x)) = Some y"
    using entry_of_None [of d "eid (fst x)"] by auto
  then have "y \<in> set (entries [] d)" "eid (fst y) = eid (fst x)"
    using entry_of_SomeD by auto
  moreover have "inj_on (\<lambda>x. eid (fst x)) (set (entries [] d))"
    using assms(1) unfolding ids_def by (simp add: distinct_map)
  ultimately have "y = x"
    using assms(2) by (auto dest: inj_onD)
  with y show ?thesis by simp
qed

subsection \<open>Setting an attribute\<close>

lemma map_of_update_attribute:
  "map_of (update_attribute name v attrs) = (map_of attrs)(name \<mapsto> v)"
proof (cases "name \<in> set (map fst attrs)")
  case True
  let ?f = "\<lambda>(k, old). if k = name then (k, v) else (k, old)"
  have other: "map_of (map ?f attrs) k' = map_of attrs k'" if "k' \<noteq> name" for k'
    using that by (induction attrs) (simp_all add: case_prod_beta)
  have same: "name \<in> fst ` set attrs \<Longrightarrow> map_of (map ?f attrs) name = Some v"
    by (induction attrs) (auto simp: case_prod_beta)
  have "map_of (map ?f attrs) k' = ((map_of attrs)(name \<mapsto> v)) k'" for k'
    using other [of k'] same True by (cases "k' = name") simp_all
  with True show ?thesis
    by (simp add: update_attribute_def fun_eq_iff)
next
  case False
  then have "map_of attrs name = None"
    by (simp add: map_of_eq_None_iff)
  then have "map_of (attrs @ [(name, v)]) k' = ((map_of attrs)(name \<mapsto> v)) k'" for k'
    by (cases "map_of attrs k'") (auto simp: map_add_def)
  with False show ?thesis
    by (simp add: update_attribute_def fun_eq_iff del: map_of_append)
qed

lemma getAttribute_set_on:
  "getAttribute (set_on i name v e) name' =
     (if eid e = i \<and> name' = name then Some v else getAttribute e name')"
  by (simp add: getAttribute_def set_on_def map_of_update_attribute)

lemma set_on_fields [simp]:
  "tagName (set_on i name v e) = tagName e"
  "classNames (set_on i name v e) = classNames e"
  "offsetWidth (set_on i name v e) = offsetWidth e"
  "offsetHeight (set_on i name v e) = offsetHeight e"
  "clientRects (set_on i name v e) = clientRects e"
  by (simp_all add: set_on_def)

lemma matches_simple_set_on:
  "\<not> mentions name s \<Longrightarrow> matches_simple (set_on i name v e) s = matches_simple e s"
  by (cases s) (auto simp: getAttribute_set_on)

lemma matches_compound_set_on:
  "\<forall>s\<in>set c. \<not> mentions name s \<Longrightarrow>
     matches_compound (set_on i name v e) c = matches_compound e c"
  by (induction c) (simp_all add: matches_compound_def matches_simple_set_on)

lemma matches_ancestors_set_on:
  "\<forall>c\<in>set cs. \<forall>s\<in>set c. \<not> mentions name s \<Longrightarrow>
     matches_ancestors cs (map (set_on i name v) ancs) = matches_ancestors cs ancs"
  by (induction cs ancs rule: matches_ancestors.induct)
     (simp_all add: matches_compound_set_on)

lemma matches_mark_entry:
  assumes "ignores name sel"
  shows "matches sel (mark_entry i name v x) = matches sel x"
proof (cases "rev sel")
  case Nil
  then show ?thesis by (simp add: matches_def)
next
  case (Cons c cs)
  then have "set sel = insert c (set cs)"
    by (metis list.simps(15) set_rev)
  with assms have "\<forall>s\<in>set c. \<not> mentions name s" "\<forall>c\<in>set cs. \<forall>s\<in>set c. \<not> mentions name s"
    by (auto simp: ignores_def)
  then show ?thesis
    using Cons
    by (simp add: matches_def mark_entry_def ancestors_def matches_compound_set_on
        matches_ancestors_set_on)
qed

lemma entries_mark:
  "entries [] (setAttribute i name v d) = map (mark_entry i name v) (entries [] d)"
  using entries_setAttribute [of i name v "[]" d] by simp

lemma find_map_option:
  "find P (map f xs) = map_option f (find (\<lambda>x. P (f x)) xs)"
  by (induction xs) simp_all

lemma entry_of_mark:
  "entry_of (setAttribute i name v d) a = map_option (mark_entry i name v) (entry_of d a)"
  by (simp add: entry_of_def entries_mark find_map_option mark_entry_def)

lemma closest_in_set_on:
  assumes "ignores name sel"
  shows "closest_in sel (map (set_on i name v) path) = map_option (set_on i name v) (closest_in sel path)"
proof (induction path)
  case Nil
  then show ?case by simp
next
  case (Cons a ancs)
  have "matches sel (set_on i name v a, [], map (set_on i name v) ancs) = matches sel (a, [], ancs)"
    using matches_mark_entry [OF assms, of i v "(a, [], ancs)"]
    by (simp add: mark_entry_def ancestors_def)
  with Cons show ?case by simp
qed

lemma closest_mark_entry:
  "ignores name sel \<Longrightarrow>
     closest (mark_entry i name v x) sel = map_option (set_on i name v) (closest x sel)"
  using closest_in_set_on [of name sel i v "fst x # ancestors x"]
  by (simp add: closest_def mark_entry_def ancestors_def)

lemma map_filter_closest_mark:
  "\<forall>sel\<in>set sels. ignores name sel \<Longrightarrow>
     List.map_filter (closest (mark_entry i name v x)) sels
       = map (set_on i name v) (List.map_filter (closest x) sels)"
  by (induction sels) (auto simp: map_filter_simps closest_mark_entry split: option.splits)

lemma container_selectors_ignore: "\<forall>sel\<in>set CONTAINER_SELECTORS. ignores PROCESSED_ATTR sel"
  by (simp add: CONTAINER_SELECTORS_def ignores_def)

lemma apply_selectors_ignore: "\<forall>sel\<in>set APPLY_BTN_SELECTORS. ignores PROCESSED_ATTR sel"
  by (simp add: APPLY_BTN_SELECTORS_def ignores_def PROCESSED_ATTR_def)

lemma track_selector_ignores: "ignores PROCESSED_ATTR TRACK_SELECTOR"
  by (simp add: TRACK_SELECTOR_def ignores_def PROCESSED_ATTR_def)

lemma button_selector_ignores: "ignores name [[TagSel ''button'']]"
  by (simp add: ignores_def)

lemma parentElement_mark_entry:
  "parentElement (mark_entry i name v x) = map_option (set_on i name v) (parentElement x)"
  by (simp add: parentElement_def mark_entry_def ancestors_def split: list.splits)

lemma findInjectionContainer_mark:
  "map_option eid (findInjectionContainer (mark_entry i PROCESSED_ATTR v x))
     = map_option eid (findInjectionContainer x)"
  unfolding findInjectionContainer_def
  by (simp add: map_filter_closest_mark [OF container_selectors_ignore] parentElement_mark_entry
      option.map_comp comp_def split: list.splits)

lemma container_of_mark [simp]: "container_of (mark a d) x = container_of d x"
  by (cases "entry_of d x") (simp_all add: container_of_def entry_of_mark findInjectionContainer_mark)

lemma processed_mark:
  "processed (mark a d) x \<longleftrightarrow> processed d x \<or> (x = a \<and> a \<in> set (ids d))"
proof (cases "entry_of d x")
  case None
  then show ?thesis
    using entry_of_None [of d x] by (auto simp: processed_def entry_of_mark)
next
  case (Some y)
  then have "eid (fst y) = x" "x \<in> set (ids d)"
    using entry_of_SomeD [OF Some] entry_of_None [of d x] by auto
  with Some show ?thesis
    by (auto simp: processed_def entry_of_mark mark_entry_def getAttribute_set_on)
qed

lemma ancestors_mark_entry [simp]:
  "map eid (ancestors (mark_entry i name v x)) = map eid (ancestors x)"
  by (simp add: mark_entry_def ancestors_def)

lemma has_control_mark [simp]: "has_control (mark a d) c = has_control d c"
  unfolding has_control_def element_querySelector_def entries_mark find_map_option
  by (simp add: matches_mark_entry [OF track_selector_ignores])

lemma isVisible_set_on [simp]: "isVisible (set_on i name v e) = isVisible e"
  by (simp add: isVisible_def)

lemma affordance_mark_entry [simp]:
  "affordance (mark_entry i PROCESSED_ATTR v x) = affordance x"
proof -
  have "(\<exists>sel\<in>set APPLY_BTN_SELECTORS. matches sel (mark_entry i PROCESSED_ATTR v x))
      = (\<exists>sel\<in>set APPLY_BTN_SELECTORS. matches sel x)"
    using apply_selectors_ignore matches_mark_entry by blast
  moreover have "fst (mark_entry i PROCESSED_ATTR v x) = set_on i PROCESSED_ATTR v (fst x)"
    "fst (snd (mark_entry i PROCESSED_ATTR v x)) = fst (snd x)"
    by (simp_all add: mark_entry_def)
  ultimately show ?thesis
    by (simp add: affordance_def matches_mark_entry [OF button_selector_ignores])
qed

lemma controls_mark: "controls (mark a d) = map (mark_entry a PROCESSED_ATTR ''true'') (controls d)"
  by (simp add: controls_def querySelectorAll_def entries_mark filter_map comp_def
      matches_mark_entry [OF track_selector_ignores])

lemma length_controls_mark [simp]: "length (controls (mark a d)) = length (controls d)"
  by (simp add: controls_mark)

lemma parent_id_mark_entry [simp]:
  "parent_id (mark_entry i name v x) = parent_id x"
  by (simp add: parent_id_def parentElement_mark_entry option.map_comp comp_def)

lemma length_controls_in_mark [simp]:
  "length (controls_in (mark a d) c) = length (controls_in d c)"
  by (simp add: controls_in_def controls_mark filter_map comp_def)

subsection \<open>Inserting a control\<close>

lemma kept_ids: "list_all2 (kept p) xs xs' \<Longrightarrow> map (\<lambda>x. eid (fst x)) xs' = map (\<lambda>x. eid (fst x)) xs"
  by (induction rule: list_all2_induct) (simp_all add: kept_def)

lemma kept_forward: "list_all2 (kept p) xs xs' \<Longrightarrow> z \<in> set xs \<Longrightarrow> \<exists>z'\<in>set xs'. kept p z z'"
  by (induction rule: list_all2_induct) auto

lemma kept_backward: "list_all2 (kept p) xs xs' \<Longrightarrow> z' \<in> set xs' \<Longrightarrow> \<exists>z\<in>set xs. kept p z z'"
  by (induction rule: list_all2_induct) auto

lemma kept_filter:
  assumes "list_all2 (kept p) xs xs'" and "\<And>z z'. kept p z z' \<Longrightarrow> Q z' = Q z"
  shows "length (filter Q xs') = length (filter Q xs)"
  using assms(1) by (induction rule: list_all2_induct) (simp_all add: assms(2))

text \<open>The facts about a document after an insertion, from the decomposition.\<close>

lemma insertInto_facts:
  assumes "distinct (ids d)" and "y \<in> set (entries [] d)" and "eid (fst y) = c"
    and "p \<in> set (textContent n)"
  shows "\<And>z'. z' \<in> set (entries [] (insertInto c r n d)) \<Longrightarrow>
           (\<exists>z\<in>set (entries [] d). kept p z z') \<or> z' \<in> set (entries (fst y # ancestors y) n)"
    and "\<And>z. z \<in> set (entries [] d) \<Longrightarrow> \<exists>z'\<in>set (entries [] (insertInto c r n d)). kept p z z'"
    and "set (entries (fst y # ancestors y) n) \<subseteq> set (entries [] (insertInto c r n d))"
    and "set (ids (insertInto c r n d)) = set (ids d) \<union> set (ids n)"
    and "distinct (ids n) \<Longrightarrow> set (ids n) \<inter> set (ids d) = {} \<Longrightarrow> distinct (ids (insertInto c r n d))"
    and "\<And>Q. (\<And>z z'. kept p z z' \<Longrightarrow> Q z' = Q z) \<Longrightarrow>
           length (filter Q (entries [] (insertInto c r n d)))
             = length (filter Q (entries [] d)) + length (filter Q (entries (fst y # ancestors y) n))"
proof -
  from entries_insertInto [OF assms, where r = r]
  obtain xs ys xs' ys' where dec: "entries [] d = xs @ ys"
    "entries [] (insertInto c r n d) = xs' @ entries (fst y # ancestors y) n @ ys'"
    "list_all2 (kept p) xs xs'" "list_all2 (kept p) ys ys'"
    by blast
  show "(\<exists>z\<in>set (entries [] d). kept p z z') \<or> z' \<in> set (entries (fst y # ancestors y) n)"
    if "z' \<in> set (entries [] (insertInto c r n d))" for z'
    using that kept_backward [OF dec(3), of z'] kept_backward [OF dec(4), of z'] unfolding dec(1,2) by auto
  show "\<exists>z'\<in>set (entries [] (insertInto c r n d)). kept p z z'" if "z \<in> set (entries [] d)" for z
    using that kept_forward [OF dec(3), of z] kept_forward [OF dec(4), of z] unfolding dec(1,2) by auto
  show "set (entries (fst y # ancestors y) n) \<subseteq> set (entries [] (insertInto c r n d))"
    unfolding dec(2) by auto
  have i: "ids d = map (\<lambda>x. eid (fst x)) xs @ map (\<lambda>x. eid (fst x)) ys"
    "ids (insertInto c r n d) = map (\<lambda>x. eid (fst x)) xs @ ids n @ map (\<lambda>x. eid (fst x)) ys"
    using dec kept_ids [OF dec(3)] kept_ids [OF dec(4)] entries_ids_eq [of "fst y # ancestors y" n]
    by (simp_all add: ids_def)
  show "set (ids (insertInto c r n d)) = set (ids d) \<union> set (ids n)"
    unfolding i by auto
  show "distinct (ids (insertInto c r n d))" if "distinct (ids n)" "set (ids n) \<inter> set (ids d) = {}"
    using that assms(1) unfolding i by auto
  show "length (filter Q (entries [] (insertInto c r n d)))
      = length (filter Q (entries [] d)) + length (filter Q (entries (fst y # ancestors y) n))"
    if "\<And>z z'. kept p z z' \<Longrightarrow> Q z' = Q z" for Q
    using kept_filter [OF dec(3), of Q] kept_filter [OF dec(4), of Q] that
    unfolding dec(1,2) by simp
qed

lemma entries_trackBtn_node:
  "entries p (trackBtn_node env f)
     = [(control_element env f, js ''+ Track'', p),
        (span_element env (Suc f), js ''+'', control_element env f # p)]"
  by (simp add: trackBtn_node_def js_def)

lemma ids_trackBtn_node [simp]: "ids (trackBtn_node env f) = [f, Suc f]"
  by (simp add: ids_def entries_trackBtn_node control_element_def span_element_def)

lemma plus_in_trackBtn_node: "0x2B \<in> set (textContent (trackBtn_node env f))"
  by (simp add: trackBtn_node_def js_def)

lemma fold_max_ge: "a \<le> fold max xs (a::nat)" "x \<in> set xs \<Longrightarrow> x \<le> fold max xs a"
proof -
  show "a \<le> fold max xs a"
    by (induction xs arbitrary: a) (auto intro: order_trans [OF max.cobounded2])
  then show "x \<in> set xs \<Longrightarrow> x \<le> fold max xs a"
  proof (induction xs arbitrary: a)
    case Nil
    then show ?case by simp
  next
    case (Cons y ys)
    have "a \<le> fold max ys a" for a :: nat
      by (induction ys arbitrary: a) (auto intro: order_trans [OF max.cobounded2])
    then have "max y a \<le> fold max ys (max y a)" .
    with Cons show ?case by auto
  qed
qed

lemma fresh_above: "i \<in> set (ids d) \<Longrightarrow> i < fresh d"
  unfolding fresh_def ids_def using fold_max_ge(2) [of i _ 0] by (simp add: less_Suc_eq_le)

lemma control_matches_track: "matches TRACK_SELECTOR (control_element env f, t, p)"
  by (simp add: matches_def TRACK_SELECTOR_def matches_compound_def getAttribute_def
      control_element_def createButton_def startsWith_def BUTTON_ID_PREFIX_def)

lemma span_not_track: "\<not> matches TRACK_SELECTOR (span_element env f, t, p)"
  by (simp add: matches_def TRACK_SELECTOR_def matches_compound_def getAttribute_def
      span_element_def)

lemma control_not_affordance: "\<not> affordance (control_element env f, js ''+ Track'', p)"
  by (simp add: affordance_def APPLY_BTN_SELECTORS_def matches_def matches_compound_def
      getAttribute_def control_element_def createButton_def toLowerCase_def trim_def
      is_space_def lower_unit_def js_def)

lemma span_not_affordance: "\<not> affordance (span_element env f, t, p)"
  by (simp add: affordance_def APPLY_BTN_SELECTORS_def matches_def matches_compound_def
      getAttribute_def span_element_def)

lemma matches_kept: "kept p z z' \<Longrightarrow> matches sel z' = matches sel z"
  by (simp add: kept_def matches_def split: list.splits)

lemma findInjectionContainer_kept:
  assumes "kept p z z'"
  shows "findInjectionContainer z' = findInjectionContainer z"
proof -
  from assms have "fst z' = fst z" "ancestors z' = ancestors z"
    by (simp_all add: kept_def)
  then have "closest z' = closest z" "parentElement z' = parentElement z"
    by (simp_all add: closest_def parentElement_def fun_eq_iff)
  then show ?thesis
    by (simp add: findInjectionContainer_def split: list.splits)
qed

lemma parent_id_kept: "kept p z z' \<Longrightarrow> parent_id z' = parent_id z"
  unfolding kept_def parent_id_def parentElement_def by (elim conjE) simp

lemma mem_dropWhile: "x \<in> set xs \<Longrightarrow> \<not> P x \<Longrightarrow> x \<in> set (dropWhile P xs)"
  by (induction xs) auto

lemma mem_trim: "x \<in> set t \<Longrightarrow> \<not> is_space x \<Longrightarrow> x \<in> set (trim t)"
  unfolding trim_def by (simp add: mem_dropWhile)

lemma plus_not_apply:
  assumes "0x2B \<in> set t"
  shows "toLowerCase (trim t) \<noteq> js ''apply''" "toLowerCase (trim t) \<noteq> js ''easy apply''"
proof -
  have "0x2B \<in> set (trim t)"
    using assms by (rule mem_trim) (simp add: is_space_def)
  then have "lower_unit 0x2B \<in> set (toLowerCase (trim t))"
    unfolding toLowerCase_def by (metis image_eqI list.set_map)
  then have p: "0x2B \<in> set (toLowerCase (trim t))"
    by (simp add: lower_unit_def)
  show "toLowerCase (trim t) \<noteq> js ''apply''"
    using p by (auto simp: js_def)
  show "toLowerCase (trim t) \<noteq> js ''easy apply''"
    using p by (auto simp: js_def)
qed

lemma affordance_kept:
  assumes "kept 0x2B z z'" and "affordance z'"
  shows "affordance z"
proof -
  have f: "fst z' = fst z"
    using assms(1) by (simp add: kept_def)
  have m: "\<And>sel. matches sel z' = matches sel z"
    using assms(1) by (rule matches_kept)
  show ?thesis
  proof (cases "fst (snd z') = fst (snd z)")
    case True
    with assms(2) f m show ?thesis
      by (simp add: affordance_def)
  next
    case False
    with assms(1) have "0x2B \<in> set (fst (snd z'))"
      by (simp add: kept_def)
    with assms(2) f m plus_not_apply show ?thesis
      by (auto simp: affordance_def)
  qed
qed

lemma has_control_iff:
  "has_control d c \<longleftrightarrow>
     (\<exists>z\<in>set (entries [] d). matches TRACK_SELECTOR z \<and> c \<in> set (map eid (ancestors z)))"
  unfolding has_control_def element_querySelector_def find_None_iff by blast

lemma controls_in_filter:
  "controls_in d c = filter (\<lambda>x. matches TRACK_SELECTOR x \<and> parent_id x = Some c) (entries [] d)"
  by (simp add: controls_in_def controls_def querySelectorAll_def conj_commute)

text \<open>Inserting the control for the element \<open>y\<close> with identity \<open>c\<close>.\<close>

lemma insert_control:
  fixes env r
  assumes wf: "distinct (ids d)" and y: "y \<in> set (entries [] d)" "eid (fst y) = c"
  defines "d' \<equiv> insertInto c r (trackBtn_node env (fresh d)) d"
  shows "distinct (ids d')"
    and "set (ids d') = set (ids d) \<union> {fresh d, Suc (fresh d)}"
    and "\<And>x z. entry_of d x = Some z \<Longrightarrow> \<exists>z'. entry_of d' x = Some z' \<and> kept 0x2B z z'"
    and "\<And>c0. has_control d c0 \<Longrightarrow> has_control d' c0"
    and "has_control d' c"
    and "\<And>z'. z' \<in> set (entries [] d') \<Longrightarrow> affordance z' \<Longrightarrow>
           \<exists>z\<in>set (entries [] d). eid (fst z) = eid (fst z') \<and> affordance z"
    and "length (controls d') = Suc (length (controls d))"
    and "\<And>c0. length (controls_in d' c0) = length (controls_in d c0) + (if c0 = c then 1 else 0)"
proof -
  note facts = insertInto_facts [OF wf y plus_in_trackBtn_node [of env "fresh d"], where r = r, folded d'_def]
  let ?N = "entries (fst y # ancestors y) (trackBtn_node env (fresh d))"
  have new: "set (ids (trackBtn_node env (fresh d))) \<inter> set (ids d) = {}"
    using fresh_above [of _ d] by fastforce
  show wf': "distinct (ids d')"
    using facts(5) new by simp
  show "set (ids d') = set (ids d) \<union> {fresh d, Suc (fresh d)}"
    using facts(4) by simp
  show "\<exists>z'. entry_of d' x = Some z' \<and> kept 0x2B z z'" if "entry_of d x = Some z" for x z
  proof -
    from that have z: "z \<in> set (entries [] d)" "eid (fst z) = x"
      using entry_of_SomeD by auto
    then obtain z' where z': "z' \<in> set (entries [] d')" "kept 0x2B z z'"
      using facts(2) by blast
    then have "entry_of d' (eid (fst z')) = Some z'"
      using entry_of_unique [OF wf'] by blast
    moreover have "eid (fst z') = x"
      using z' z by (simp add: kept_def)
    ultimately show ?thesis
      using z' by auto
  qed
  show "has_control d' c0" if "has_control d c0" for c0
  proof -
    from that obtain z where z: "z \<in> set (entries [] d)" "matches TRACK_SELECTOR z"
      "c0 \<in> set (map eid (ancestors z))"
      unfolding has_control_iff by blast
    then obtain z' where z': "z' \<in> set (entries [] d')" "kept 0x2B z z'"
      using facts(2) by blast
    have "matches TRACK_SELECTOR z'"
      using z(2) matches_kept [OF z'(2)] by simp
    moreover have "c0 \<in> set (map eid (ancestors z'))"
      using z(3) z'(2) by (simp add: kept_def)
    ultimately show ?thesis
      unfolding has_control_iff using z'(1) by blast
  qed
  have btn: "(control_element env (fresh d), js ''+ Track'', fst y # ancestors y) \<in> set (entries [] d')"
    using facts(3) by (simp add: entries_trackBtn_node)
  have "c \<in> set (map eid (ancestors (control_element env (fresh d), js ''+ Track'', fst y # ancestors y)))"
    using y(2) by (simp add: ancestors_def)
  then show "has_control d' c"
    unfolding has_control_iff using btn control_matches_track by blast
  show "\<exists>z\<in>set (entries [] d). eid (fst z) = eid (fst z') \<and> affordance z"
    if "z' \<in> set (entries [] d')" "affordance z'" for z'
  proof -
    from facts(1) [OF that(1)] show ?thesis
    proof
      assume "\<exists>z\<in>set (entries [] d). kept 0x2B z z'"
      then obtain z where z: "z \<in> set (entries [] d)" "kept 0x2B z z'"
        by blast
      have "affordance z"
        using z(2) that(2) by (rule affordance_kept)
      moreover have "eid (fst z) = eid (fst z')"
        using z(2) by (simp add: kept_def)
      ultimately show ?thesis
        using z(1) by blast
    next
      assume "z' \<in> set ?N"
      then have "z' = (control_element env (fresh d), js ''+ Track'', fst y # ancestors y)
          \<or> z' = (span_element env (Suc (fresh d)), js ''+'',
                  control_element env (fresh d) # fst y # ancestors y)"
        by (simp add: entries_trackBtn_node)
      with that(2) show ?thesis
        using control_not_affordance span_not_affordance by blast
    qed
  qed
  have "length (filter (matches TRACK_SELECTOR) (entries [] d'))
      = length (filter (matches TRACK_SELECTOR) (entries [] d)) + length (filter (matches TRACK_SELECTOR) ?N)"
    by (rule facts(6)) (rule matches_kept)
  then show "length (controls d') = Suc (length (controls d))"
    by (simp add: controls_def querySelectorAll_def entries_trackBtn_node control_matches_track
        span_not_track)
  show "length (controls_in d' c0) = length (controls_in d c0) + (if c0 = c then 1 else 0)" for c0
  proof -
    let ?Q = "\<lambda>x. matches TRACK_SELECTOR x \<and> parent_id x = Some c0"
    have "length (filter ?Q (entries [] d')) = length (filter ?Q (entries [] d)) + length (filter ?Q ?N)"
      by (rule facts(6)) (simp add: matches_kept [where p = "0x2B"] parent_id_kept [where p = "0x2B"])
    moreover have "parent_id (control_element env (fresh d), js ''+ Track'', fst y # ancestors y) = Some c"
      using y(2) by (simp add: parent_id_def parentElement_def ancestors_def)
    then have "length (filter ?Q ?N) = (if c0 = c then 1 else 0)"
      by (simp add: entries_trackBtn_node control_matches_track span_not_track)
    ultimately show ?thesis
      by (simp add: controls_in_filter)
  qed
qed

subsection \<open>One pass of the loop\<close>

lemma extends_refl: "distinct (ids d) \<Longrightarrow> extends d d"
  unfolding extends_def by blast

lemma extends_trans:
  assumes "extends d d'" and "extends d' d''"
  shows "extends d d''"
  unfolding extends_def
proof (intro conjI ballI allI impI)
  show "distinct (ids d'')"
    using assms(2) by (simp add: extends_def)
  show "set (ids d) \<subseteq> set (ids d'')"
    using assms unfolding extends_def by blast
  show "container_of d'' x = container_of d x" if "x \<in> set (ids d)" for x
  proof -
    from that assms(1) have "x \<in> set (ids d')" "container_of d' x = container_of d x"
      unfolding extends_def by blast+
    with assms(2) show ?thesis
      unfolding extends_def by simp
  qed
  show "processed d'' x" if "processed d x" for x
    using that assms unfolding extends_def by blast
  show "has_control d'' c" if "has_control d c" for c
    using that assms unfolding extends_def by blast
  show "\<exists>z\<in>set (entries [] d). eid (fst z) = eid (fst z'') \<and> affordance z"
    if "z'' \<in> set (entries [] d'')" "affordance z''" for z''
  proof -
    from that assms(2) obtain z' where "z' \<in> set (entries [] d')" "eid (fst z') = eid (fst z'')"
      "affordance z'"
      unfolding extends_def by blast
    with assms(1) show ?thesis
      unfolding extends_def by metis
  qed
qed

lemma extends_mark:
  assumes "distinct (ids d)"
  shows "extends d (mark a d)"
  unfolding extends_def
proof (intro conjI ballI allI impI)
  show "\<exists>z\<in>set (entries [] d). eid (fst z) = eid (fst z') \<and> affordance z"
    if "z' \<in> set (entries [] (mark a d))" "affordance z'" for z'
  proof -
    from that(1) obtain z where "z \<in> set (entries [] d)" "z' = mark_entry a PROCESSED_ATTR ''true'' z"
      unfolding entries_mark by auto
    with that(2) have "affordance z" "eid (fst z) = eid (fst z')"
      by (simp_all add: mark_entry_def [symmetric]) (simp add: mark_entry_def)
    with \<open>z \<in> set (entries [] d)\<close> show ?thesis
      by blast
  qed
qed (use assms in \<open>simp_all add: processed_mark\<close>)

lemma extends_insert:
  assumes wf: "distinct (ids d)" and y: "y \<in> set (entries [] d)" "eid (fst y) = c"
  shows "extends d (insertInto c r (trackBtn_node env (fresh d)) d)"
  unfolding extends_def
proof (intro conjI ballI allI impI)
  note ic = insert_control [OF wf y, where r = r and env = env]
  let ?d' = "insertInto c r (trackBtn_node env (fresh d)) d"
  show "distinct (ids ?d')"
    by (rule ic(1))
  show "set (ids d) \<subseteq> set (ids ?d')"
    using ic(2) by blast
  show "container_of ?d' x = container_of d x" if "x \<in> set (ids d)" for x
  proof -
    from that obtain z where z: "entry_of d x = Some z"
      using entry_of_None [of d x] by auto
    then obtain z' where "entry_of ?d' x = Some z'" "kept 0x2B z z'"
      using ic(3) by blast
    with z show ?thesis
      by (simp add: container_of_def findInjectionContainer_kept)
  qed
  show "processed ?d' x" if "processed d x" for x
  proof -
    from that obtain z where z: "entry_of d x = Some z"
      by (auto simp: processed_def split: option.splits)
    then obtain z' where "entry_of ?d' x = Some z'" "kept 0x2B z z'"
      using ic(3) by blast
    with z that show ?thesis
      by (simp add: processed_def kept_def)
  qed
  show "has_control ?d' c0" if "has_control d c0" for c0
    using that by (rule ic(4))
  show "\<exists>z\<in>set (entries [] d). eid (fst z) = eid (fst z') \<and> affordance z"
    if "z' \<in> set (entries [] ?d')" "affordance z'" for z'
    using that by (rule ic(6))
qed

text \<open>The container of an element is an element of the document.\<close>

lemma ancestors_are_entries:
  "x \<in> set (entries ancs t) \<Longrightarrow> p \<in> set (ancestors x) \<Longrightarrow>
     p \<in> set ancs \<or> (\<exists>y\<in>set (entries ancs t). fst y = p)"
proof (induction t arbitrary: ancs)
  case (Text s)
  then show ?case by simp
next
  case (Element e ks)
  show ?case
  proof (cases "x = (e, concat (map textContent ks), ancs)")
    case True
    with Element.prems(2) show ?thesis
      by (simp add: ancestors_def)
  next
    case False
    with Element.prems(1) obtain k where k: "k \<in> set ks" "x \<in> set (entries (e # ancs) k)"
      by auto
    from Element.IH [OF k Element.prems(2)] k(1) show ?thesis
      by (auto intro: bexI [of _ "(e, concat (map textContent ks), ancs)"])
  qed
qed

lemma closest_in_mem: "closest_in sel path = Some e \<Longrightarrow> e \<in> set path"
  by (induction path) (auto split: if_splits)

lemma findInjectionContainer_mem:
  assumes "findInjectionContainer x = Some e"
  shows "e \<in> set (fst x # ancestors x)"
proof (cases "List.map_filter (closest x) CONTAINER_SELECTORS")
  case Nil
  with assms show ?thesis
    by (auto simp: findInjectionContainer_def parentElement_def split: list.splits)
next
  case (Cons e' es)
  with assms have "e' = e"
    by (simp add: findInjectionContainer_def)
  then have "e \<in> set (List.map_filter (closest x) CONTAINER_SELECTORS)"
    using Cons by simp
  then obtain sel where "closest x sel = Some e"
    by (auto simp: map_filter_def)
  then have "closest_in sel (fst x # ancestors x) = Some e"
    by (simp add: closest_def)
  then show ?thesis
    by (rule closest_in_mem)
qed

lemma container_is_entry:
  assumes "entry_of d a = Some x" and "findInjectionContainer x = Some e"
  shows "\<exists>y\<in>set (entries [] d). fst y = e"
proof -
  from assms(1) have x: "x \<in> set (entries [] d)"
    using entry_of_SomeD by blast
  from findInjectionContainer_mem [OF assms(2)] have "e = fst x \<or> e \<in> set (ancestors x)"
    by auto
  then show ?thesis
    using x ancestors_are_entries [OF x, of e] by auto
qed

lemma inject_one_cases:
  obtains (skip) "inject_one env a d = d"
      "a \<notin> set (ids d) \<or> processed d a \<or> container_of d a = None"
  | (marked) c where "a \<in> set (ids d)" "\<not> processed d a" "container_of d a = Some c"
      "has_control d c" "inject_one env a d = mark a d"
  | (inserted) c r y where "a \<in> set (ids d)" "\<not> processed d a" "container_of d a = Some c"
      "\<not> has_control d c" "y \<in> set (entries [] d)" "eid (fst y) = c"
      "inject_one env a d = mark a (insertInto c r (trackBtn_node env (fresh d)) d)"
proof (cases "entry_of d a")
  case None
  then show ?thesis
    using skip entry_of_None [of d a] by (simp add: inject_one_def)
next
  case (Some btn)
  then have a: "a \<in> set (ids d)"
    using entry_of_None [of d a] by auto
  show ?thesis
  proof (cases "processed d a")
    case True
    with Some show ?thesis
      using skip by (simp add: inject_one_def processed_def)
  next
    case unprocessed: False
    show ?thesis
    proof (cases "findInjectionContainer btn")
      case None
      with Some unprocessed show ?thesis
        using skip by (simp add: inject_one_def processed_def container_of_def)
    next
      case (Some ce)
      with \<open>entry_of d a = Some btn\<close> have c: "container_of d a = Some (eid ce)"
        by (simp add: container_of_def)
      show ?thesis
      proof (cases "has_control d (eid ce)")
        case True
        with Some \<open>entry_of d a = Some btn\<close> unprocessed
        have "inject_one env a d = mark a d"
          by (simp add: inject_one_def processed_def has_control_def)
        with a unprocessed c True show ?thesis
          using marked by blast
      next
        case False
        obtain y where y: "y \<in> set (entries [] d)" "fst y = ce"
          using container_is_entry [OF \<open>entry_of d a = Some btn\<close> Some] by blast
        from Some \<open>entry_of d a = Some btn\<close> unprocessed False
        have "\<exists>r. inject_one env a d = mark a (insertInto (eid ce) r (trackBtn_node env (fresh d)) d)"
          by (auto simp: inject_one_def processed_def has_control_def Let_def)
        with a unprocessed c False y show ?thesis
          using inserted by blast
      qed
    qed
  qed
qed

lemma inject_one_step:
  fixes env a c0
  assumes wf: "distinct (ids d)"
  defines "d' \<equiv> inject_one env a d"
  shows "extends d d'"
    and "a \<in> set (ids d) \<Longrightarrow> processed d' a \<or> container_of d a = None"
    and "length (controls d') \<le> length (controls d) + (if processed d a then 0 else 1)"
    and "length (controls_in d' c0) = length (controls_in d c0)
         \<or> (\<not> has_control d c0 \<and> has_control d' c0
            \<and> length (controls_in d' c0) = Suc (length (controls_in d c0)))"
proof -
  have main: "extends d d'
      \<and> (a \<in> set (ids d) \<longrightarrow> processed d' a \<or> container_of d a = None)
      \<and> length (controls d') \<le> length (controls d) + (if processed d a then 0 else 1)
      \<and> (length (controls_in d' c0) = length (controls_in d c0)
         \<or> (\<not> has_control d c0 \<and> has_control d' c0
            \<and> length (controls_in d' c0) = Suc (length (controls_in d c0))))"
  proof (cases rule: inject_one_cases [of env a d])
    case skip
    then show ?thesis
      using wf by (auto simp: d'_def extends_refl)
  next
    case (marked c)
    then show ?thesis
      using wf by (simp add: d'_def extends_mark processed_mark)
  next
    case (inserted c r y)
    let ?d'' = "insertInto c r (trackBtn_node env (fresh d)) d"
    note ic = insert_control [OF wf inserted(5,6), where r = r and env = env]
    have e1: "extends d ?d''"
      using wf inserted(5,6) by (rule extends_insert)
    have e2: "extends ?d'' d'"
      unfolding d'_def inserted(7) using ic(1) by (rule extends_mark)
    have "a \<in> set (ids ?d'')"
      using inserted(1) ic(2) by simp
    then have "processed d' a"
      unfolding d'_def inserted(7) by (simp add: processed_mark)
    moreover have "length (controls d') = Suc (length (controls d))"
      unfolding d'_def inserted(7) using ic(7) by simp
    moreover have "length (controls_in d' c0) = length (controls_in d c0) + (if c0 = c then 1 else 0)"
      unfolding d'_def inserted(7) using ic(8) by simp
    moreover have "has_control d' c"
      unfolding d'_def inserted(7) using ic(5) by simp
    ultimately show ?thesis
      using extends_trans [OF e1 e2] inserted(2,4) by auto
  qed
  show "extends d d'"
    using main by simp
  show "a \<in> set (ids d) \<Longrightarrow> processed d' a \<or> container_of d a = None"
    using main by simp
  show "length (controls d') \<le> length (controls d) + (if processed d a then 0 else 1)"
    using main by simp
  show "length (controls_in d' c0) = length (controls_in d c0)
         \<or> (\<not> has_control d c0 \<and> has_control d' c0
            \<and> length (controls_in d' c0) = Suc (length (controls_in d c0)))"
    using main by simp
qed

subsection \<open>The whole loop\<close>

lemma fold_inject:
  fixes env as c0
  assumes "distinct (ids d)"
  defines "d' \<equiv> fold (inject_one env) as d"
  shows "extends d d'"
    and "\<And>a. a \<in> set as \<Longrightarrow> a \<in> set (ids d) \<Longrightarrow> processed d' a \<or> container_of d a = None"
    and "length (controls d') \<le> length (controls d) + length (filter (\<lambda>a. \<not> processed d a) as)"
    and "length (controls_in d' c0) = length (controls_in d c0)
         \<or> (\<not> has_control d c0 \<and> has_control d' c0
            \<and> length (controls_in d' c0) = Suc (length (controls_in d c0)))"
proof -
  have main: "extends d (fold (inject_one env) as d)
      \<and> (\<forall>a\<in>set as. a \<in> set (ids d) \<longrightarrow>
            processed (fold (inject_one env) as d) a \<or> container_of d a = None)
      \<and> length (controls (fold (inject_one env) as d))
          \<le> length (controls d) + length (filter (\<lambda>a. \<not> processed d a) as)
      \<and> (length (controls_in (fold (inject_one env) as d) c0) = length (controls_in d c0)
         \<or> (\<not> has_control d c0 \<and> has_control (fold (inject_one env) as d) c0
            \<and> length (controls_in (fold (inject_one env) as d) c0) = Suc (length (controls_in d c0))))"
    using assms(1)
  proof (induction as arbitrary: d)
    case Nil
    then show ?case by (simp add: extends_refl)
  next
    case (Cons a as)
    let ?d1 = "inject_one env a d"
    let ?d' = "fold (inject_one env) as ?d1"
    note st = inject_one_step [OF Cons.prems, where env = env and a = a]
    have wf1: "distinct (ids ?d1)"
      using st(1) by (simp add: extends_def)
    note ih = Cons.IH [OF wf1]
    have ih1: "extends ?d1 ?d'"
      using ih by simp
    have ih2: "\<And>x. x \<in> set as \<Longrightarrow> x \<in> set (ids ?d1) \<Longrightarrow>
        processed ?d' x \<or> container_of ?d1 x = None"
      using ih by simp
    have ih3: "length (controls ?d')
        \<le> length (controls ?d1) + length (filter (\<lambda>a. \<not> processed ?d1 a) as)"
      using ih by simp
    have ih4: "length (controls_in ?d' c0) = length (controls_in ?d1 c0)
         \<or> (\<not> has_control ?d1 c0 \<and> has_control ?d' c0
            \<and> length (controls_in ?d' c0) = Suc (length (controls_in ?d1 c0)))"
      using ih by simp
    have mono1: "processed ?d1 x \<Longrightarrow> processed ?d' x" for x
      using ih1 unfolding extends_def by blast
    have e: "extends d ?d'"
      using st(1) ih1 by (rule extends_trans)
    have p: "processed ?d' x \<or> container_of d x = None"
      if "x \<in> set (a # as)" "x \<in> set (ids d)" for x
    proof (cases "x \<in> set as")
      case True
      moreover have "x \<in> set (ids ?d1)" "container_of ?d1 x = container_of d x"
        using st(1) that(2) unfolding extends_def by blast+
      ultimately show ?thesis
        using ih2 [of x] by auto
    next
      case False
      with that have "x = a" by simp
      with st(2) that(2) have "processed ?d1 a \<or> container_of d a = None"
        by simp
      then show ?thesis
        using mono1 [of a] \<open>x = a\<close> by auto
    qed
    have mono: "processed d x \<Longrightarrow> processed ?d1 x" for x
      using st(1) unfolding extends_def by blast
    have "length (filter (\<lambda>a. \<not> processed ?d1 a) as) \<le> length (filter (\<lambda>a. \<not> processed d a) as)"
      by (induction as) (use mono in auto)
    then have k1: "length (controls ?d')
        \<le> length (controls d) + length (filter (\<lambda>a. \<not> processed d a) (a # as))"
      using st(3) ih3 by (auto split: if_splits)
    have hc: "has_control ?d1 c0 \<Longrightarrow> has_control ?d' c0" "has_control d c0 \<Longrightarrow> has_control ?d1 c0"
      using ih1 st(1) unfolding extends_def by blast+
    have k2: "length (controls_in ?d' c0) = length (controls_in d c0)
         \<or> (\<not> has_control d c0 \<and> has_control ?d' c0
            \<and> length (controls_in ?d' c0) = Suc (length (controls_in d c0)))"
      using st(4) [of c0] ih4 hc by auto
    from e p k1 k2 show ?case
      by simp
  qed
  show "extends d d'"
    using main unfolding d'_def by simp
  show "\<And>a. a \<in> set as \<Longrightarrow> a \<in> set (ids d) \<Longrightarrow> processed d' a \<or> container_of d a = None"
    using main unfolding d'_def by simp
  show "length (controls d') \<le> length (controls d) + length (filter (\<lambda>a. \<not> processed d a) as)"
    using main unfolding d'_def by simp
  show "length (controls_in d' c0) = length (controls_in d c0)
         \<or> (\<not> has_control d c0 \<and> has_control d' c0
            \<and> length (controls_in d' c0) = Suc (length (controls_in d c0)))"
    using main unfolding d'_def by simp
qed

lemma found_in_ids: "a \<in> set (findApplyButtons d) \<Longrightarrow> a \<in> set (ids d)"
  unfolding set_findApplyButtons ids_def by auto

lemma inject_one_settled:
  "processed d a \<or> container_of d a = None \<Longrightarrow> inject_one env a d = d"
  by (auto simp: inject_one_def processed_def container_of_def split: option.splits)

lemma fold_fixed: "(\<And>a. a \<in> set as \<Longrightarrow> f a d = d) \<Longrightarrow> fold f as d = d"
  by (induction as) simp_all

lemma injectButtons_fold: "injectButtons env d = fold (inject_one env) (findApplyButtons d) d"
  by (cases "findApplyButtons d") (simp_all add: injectButtons_def)

subsection \<open>What a scan inserts\<close>

lemma processed_insert:
  assumes "distinct (ids d)" and "y \<in> set (entries [] d)" and "eid (fst y) = c"
    and "x \<in> set (ids d)"
  shows "processed (insertInto c r (trackBtn_node env (fresh d)) d) x = processed d x"
proof -
  from assms(4) obtain z where z: "entry_of d x = Some z"
    using entry_of_None [of d x] by auto
  from insert_control(3) [OF assms(1-3) z, where r = r and env = env]
  obtain z' where "entry_of (insertInto c r (trackBtn_node env (fresh d)) d) x = Some z'"
    "kept 0x2B z z'"
    by blast
  with z show ?thesis
    by (simp add: processed_def kept_def)
qed

lemma inject_one_other:
  assumes wf: "distinct (ids d)" and "x \<in> set (ids d)" and "x \<noteq> a"
  shows "processed (inject_one env a d) x = processed d x"
proof (cases rule: inject_one_cases [of env a d])
  case skip
  then show ?thesis by simp
next
  case (marked c)
  with assms(3) show ?thesis
    by (simp add: processed_mark)
next
  case (inserted c r y)
  with assms show ?thesis
    by (simp add: processed_mark processed_insert)
qed

lemma inject_one_own:
  assumes wf: "distinct (ids d)" and "a \<in> set (ids d)" and "\<not> processed d a"
    and "container_of d a = Some c"
  shows "has_control (inject_one env a d) c"
    and "\<not> has_control d c \<Longrightarrow> length (controls (inject_one env a d)) = Suc (length (controls d))"
proof -
  have "has_control (inject_one env a d) c
      \<and> (\<not> has_control d c \<longrightarrow> length (controls (inject_one env a d)) = Suc (length (controls d)))"
  proof (cases rule: inject_one_cases [of env a d])
    case skip
    with assms show ?thesis by simp
  next
    case (marked c')
    with assms(4) show ?thesis by simp
  next
    case (inserted c' r y)
    note ic = insert_control [OF wf inserted(5,6), where r = r and env = env]
    from inserted(3) assms(4) have "c' = c" by simp
    with inserted(7) ic(5,7) show ?thesis by simp
  qed
  then show "has_control (inject_one env a d) c"
    and "\<not> has_control d c \<Longrightarrow> length (controls (inject_one env a d)) = Suc (length (controls d))"
    by simp_all
qed

lemma inject_one_controls:
  assumes wf: "distinct (ids d)"
  shows "(length (controls (inject_one env a d)) = length (controls d)
          \<and> (\<forall>c. has_control (inject_one env a d) c = has_control d c))
         \<or> length (controls (inject_one env a d)) = Suc (length (controls d))"
proof (cases rule: inject_one_cases [of env a d])
  case skip
  then show ?thesis by simp
next
  case (marked c)
  then show ?thesis by simp
next
  case (inserted c r y)
  note ic = insert_control [OF wf inserted(5,6), where r = r and env = env]
  from inserted(7) ic(7) show ?thesis by simp
qed

lemma fold_inject_mono:
  "distinct (ids d) \<Longrightarrow> length (controls d) \<le> length (controls (fold (inject_one env) as d))"
proof (induction as arbitrary: d)
  case Nil
  then show ?case by simp
next
  case (Cons x as)
  have "distinct (ids (inject_one env x d))"
    using inject_one_step(1) [OF Cons.prems, where env = env and a = x] by (simp add: extends_def)
  from Cons.IH [OF this] inject_one_controls [OF Cons.prems, of env x] show ?case
    by auto
qed

lemma fold_inject_control:
  assumes "distinct (ids d)" and "a \<in> set as" and "a \<in> set (ids d)" and "\<not> processed d a"
    and "container_of d a = Some c"
  shows "has_control (fold (inject_one env) as d) c"
    and "\<not> has_control d c \<Longrightarrow> length (controls d) < length (controls (fold (inject_one env) as d))"
proof -
  have "has_control (fold (inject_one env) as d) c
      \<and> (\<not> has_control d c \<longrightarrow> length (controls d) < length (controls (fold (inject_one env) as d)))"
    using assms
  proof (induction as arbitrary: d)
    case Nil
    then show ?case by simp
  next
    case (Cons x as)
    let ?d1 = "inject_one env x d"
    let ?d' = "fold (inject_one env) as ?d1"
    note st = inject_one_step(1) [OF Cons.prems(1), where env = env and a = x]
    have wf1: "distinct (ids ?d1)"
      using st by (simp add: extends_def)
    have rest: "extends ?d1 ?d'"
      using fold_inject(1) [OF wf1, where env = env and as = as] .
    note mono = fold_inject_mono [OF wf1, of env as]
    show ?case
    proof (cases "x = a")
      case True
      note own = inject_one_own [OF Cons.prems(1,3,4,5), of env]
      have "has_control ?d' c"
        using own(1) rest True unfolding extends_def by blast
      moreover have "length (controls d) < length (controls ?d')" if "\<not> has_control d c"
        using own(2) [OF that] mono True by simp
      ultimately show ?thesis
        by simp
    next
      case False
      with Cons.prems(2) have a: "a \<in> set as"
        by simp
      have a1: "a \<in> set (ids ?d1)" "container_of ?d1 a = Some c"
        using st Cons.prems(3,5) unfolding extends_def by auto
      have p1: "\<not> processed ?d1 a"
        using inject_one_other [OF Cons.prems(1,3), of x env] False Cons.prems(4) by simp
      note ih = Cons.IH [OF wf1 a a1(1) p1 a1(2)]
      have "length (controls d) < length (controls ?d')" if "\<not> has_control d c"
        using inject_one_controls [OF Cons.prems(1), of env x]
      proof
        assume "length (controls ?d1) = length (controls d)
            \<and> (\<forall>c. has_control ?d1 c = has_control d c)"
        with that ih show ?thesis
          by simp
      next
        assume "length (controls ?d1) = Suc (length (controls d))"
        with mono show ?thesis
          by simp
      qed
      with ih show ?thesis
        by simp
    qed
  qed
  then show "has_control (fold (inject_one env) as d) c"
    and "\<not> has_control d c \<Longrightarrow> length (controls d) < length (controls (fold (inject_one env) as d))"
    by simp_all
qed

lemma inject_one_count:
  assumes wf: "distinct (ids d)"
  shows "length (controls (inject_one env a d))
           \<le> length (controls d) + (if qualifies d a then 1 else 0)"
proof (cases rule: inject_one_cases [of env a d])
  case skip
  then show ?thesis by simp
next
  case (marked c)
  then show ?thesis by simp
next
  case (inserted c r y)
  note ic = insert_control [OF wf inserted(5,6), where r = r and env = env]
  from inserted(2,3,4,7) ic(7) show ?thesis
    by (simp add: qualifies_def)
qed

lemma fold_inject_count:
  assumes "distinct (ids d)" and "set as \<subseteq> set (ids d)"
  shows "length (controls (fold (inject_one env) as d))
           \<le> length (controls d) + length (filter (qualifies d) as)"
  using assms
proof (induction as arbitrary: d)
  case Nil
  then show ?case by simp
next
  case (Cons x as)
  let ?d1 = "inject_one env x d"
  note st = inject_one_step(1) [OF Cons.prems(1), where env = env and a = x]
  have wf1: "distinct (ids ?d1)" and sub: "set as \<subseteq> set (ids ?d1)"
    using st Cons.prems(2) unfolding extends_def by auto
  note ih = Cons.IH [OF wf1 sub]
  have "qualifies d a" if "a \<in> set as" "qualifies ?d1 a" for a
  proof -
    from that(1) Cons.prems(2) have "a \<in> set (ids d)"
      by auto
    then have c: "container_of ?d1 a = container_of d a"
      using st unfolding extends_def by blast
    have p: "processed d a \<Longrightarrow> processed ?d1 a"
      using st unfolding extends_def by blast
    have h: "has_control d c \<Longrightarrow> has_control ?d1 c" for c
      using st unfolding extends_def by blast
    from that(2) c p h show ?thesis
      by (auto simp: qualifies_def split: option.splits)
  qed
  then have "length (filter (qualifies ?d1) as) \<le> length (filter (qualifies d) as)"
    by (induction as) auto
  with ih inject_one_count [OF Cons.prems(1), of env x] show ?case
    by (auto split: if_splits)
qed

subsection \<open>The scan of src/extension/content.js\<close>

lemma ext_selectors_ignore:
  "\<forall>sel\<in>set APPLY_SELECTORS_ext. ignores HAS_TRACK_BUTTON sel"
  "\<forall>sel\<in>set CONTAINER_SELECTORS_ext. ignores HAS_TRACK_BUTTON sel"
  by (simp_all add: APPLY_SELECTORS_ext_def CONTAINER_SELECTORS_ext_def ignores_def
      HAS_TRACK_BUTTON_def)

lemma matches_any_mark_entry:
  "\<forall>sel\<in>set sels. ignores name sel \<Longrightarrow>
     matches_any sels (mark_entry i name v x) = matches_any sels x"
  by (simp add: matches_any_def list_ex_iff matches_mark_entry)

lemma closest_any_set_on:
  assumes "\<forall>sel\<in>set sels. ignores name sel"
  shows "closest_any sels (map (set_on i name v) path)
           = map_option (set_on i name v) (closest_any sels path)"
proof (induction path)
  case Nil
  then show ?case by simp
next
  case (Cons a ancs)
  have "matches_any sels (set_on i name v a, [], map (set_on i name v) ancs)
      = matches_any sels (a, [], ancs)"
    using matches_any_mark_entry [OF assms, of i v "(a, [], ancs)"]
    by (simp add: mark_entry_def ancestors_def)
  with Cons show ?case by simp
qed

lemma findContainer_ext_mark:
  "map_option eid (findContainer_ext (mark_entry i HAS_TRACK_BUTTON v x))
     = map_option eid (findContainer_ext x)"
proof -
  have "closest_any CONTAINER_SELECTORS_ext
          (fst (mark_entry i HAS_TRACK_BUTTON v x) # ancestors (mark_entry i HAS_TRACK_BUTTON v x))
      = map_option (set_on i HAS_TRACK_BUTTON v)
          (closest_any CONTAINER_SELECTORS_ext (fst x # ancestors x))"
    using closest_any_set_on [OF ext_selectors_ignore(2), of i v "fst x # ancestors x"]
    by (simp add: mark_entry_def ancestors_def)
  then show ?thesis
    by (cases "closest_any CONTAINER_SELECTORS_ext (fst x # ancestors x)")
       (simp_all add: findContainer_ext_def parentElement_mark_entry option.map_comp comp_def)
qed

lemma container_of_ext_mark [simp]: "container_of_ext (mark_ext b d) x = container_of_ext d x"
  by (cases "entry_of d x") (simp_all add: container_of_ext_def entry_of_mark findContainer_ext_mark)

lemma parent_of_mark [simp]: "parent_of (setAttribute i name v d) x = parent_of d x"
  by (cases "entry_of d x") (simp_all add: parent_of_def entry_of_mark)

lemma marked_ext_mark:
  "marked_ext (mark_ext b d) x \<longleftrightarrow> marked_ext d x \<or> (x = b \<and> b \<in> set (ids d))"
proof (cases "entry_of d x")
  case None
  then show ?thesis
    using entry_of_None [of d x] by (auto simp: marked_ext_def entry_of_mark)
next
  case (Some y)
  then have "eid (fst y) = x" "x \<in> set (ids d)"
    using entry_of_SomeD [OF Some] entry_of_None [of d x] by auto
  with Some show ?thesis
    by (auto simp: marked_ext_def entry_of_mark mark_entry_def getAttribute_set_on)
qed

lemma applyButtons_ext_mark [simp]: "applyButtons_ext (mark_ext b d) = applyButtons_ext d"
proof -
  have "eid (fst (mark_entry b HAS_TRACK_BUTTON ''true'' x)) = eid (fst x)" for x
    by (simp add: mark_entry_def)
  then show ?thesis
    by (simp add: applyButtons_ext_def entries_mark filter_map comp_def
        matches_any_mark_entry [OF ext_selectors_ignore(1)])
qed

lemma extends_ext_refl: "distinct (ids d) \<Longrightarrow> extends_ext d d"
  by (simp add: extends_ext_def)

lemma extends_ext_trans:
  assumes "extends_ext d d'" and "extends_ext d' d''"
  shows "extends_ext d d''"
  unfolding extends_ext_def
proof (intro conjI ballI allI impI)
  show "distinct (ids d'')"
    using assms(2) by (simp add: extends_ext_def)
  show "set (ids d) \<subseteq> set (ids d'')"
    using assms unfolding extends_ext_def by blast
  show "container_of_ext d'' x = container_of_ext d x" if "x \<in> set (ids d)" for x
  proof -
    from that assms(1) have "x \<in> set (ids d')" "container_of_ext d' x = container_of_ext d x"
      unfolding extends_ext_def by blast+
    with assms(2) show ?thesis
      unfolding extends_ext_def by simp
  qed
  show "parent_of d'' x = parent_of d x" if "x \<in> set (ids d)" for x
  proof -
    from that assms(1) have "x \<in> set (ids d')" "parent_of d' x = parent_of d x"
      unfolding extends_ext_def by blast+
    with assms(2) show ?thesis
      unfolding extends_ext_def by simp
  qed
  show "marked_ext d'' x" if "marked_ext d x" for x
    using that assms unfolding extends_ext_def by blast
  show "set (applyButtons_ext d'') \<subseteq> set (applyButtons_ext d)"
    using assms unfolding extends_ext_def by blast
qed

lemma extends_ext_mark: "distinct (ids d) \<Longrightarrow> extends_ext d (mark_ext b d)"
  by (simp add: extends_ext_def marked_ext_mark)

text \<open>Inserting its control.\<close>

lemma entries_trackBtn_node_ext:
  "entries p (trackBtn_node_ext env f) = [(control_element_ext env f, TEXT_TRACK_APPLICATION, p)]"
  by (simp add: trackBtn_node_ext_def)

lemma ids_trackBtn_node_ext [simp]: "ids (trackBtn_node_ext env f) = [f]"
  by (simp add: ids_def entries_trackBtn_node_ext control_element_ext_def)

lemma unit_in_trackBtn_node_ext: "0xD83D \<in> set (textContent (trackBtn_node_ext env f))"
  by (simp add: trackBtn_node_ext_def TEXT_TRACK_APPLICATION_def)

lemma control_ext_not_found:
  "\<not> matches_any APPLY_SELECTORS_ext (control_element_ext env f, t, p)"
  by (simp add: matches_any_def APPLY_SELECTORS_ext_def matches_def matches_compound_def
      getAttribute_def control_element_ext_def)

lemma matches_any_kept: "kept p z z' \<Longrightarrow> matches_any sels z' = matches_any sels z"
  by (simp add: matches_any_def list_ex_iff matches_kept [of p z z'])

lemma findContainer_ext_kept:
  "kept p z z' \<Longrightarrow> findContainer_ext z' = findContainer_ext z"
  by (simp add: findContainer_ext_def parentElement_def kept_def)

lemma extends_ext_insert:
  assumes wf: "distinct (ids d)" and y: "y \<in> set (entries [] d)" "eid (fst y) = c"
  shows "extends_ext d (insertInto c r (trackBtn_node_ext env (fresh d)) d)"
  unfolding extends_ext_def
proof (intro conjI ballI allI impI)
  let ?d' = "insertInto c r (trackBtn_node_ext env (fresh d)) d"
  note facts = insertInto_facts [OF wf y unit_in_trackBtn_node_ext [of env "fresh d"], where r = r]
  have new: "set (ids (trackBtn_node_ext env (fresh d))) \<inter> set (ids d) = {}"
    using fresh_above [of _ d] by fastforce
  show wf': "distinct (ids ?d')"
    using facts(5) new by simp
  show "set (ids d) \<subseteq> set (ids ?d')"
    using facts(4) by blast
  have look: "\<exists>z'. entry_of ?d' x = Some z' \<and> kept 0xD83D z z'" if "entry_of d x = Some z" for x z
  proof -
    from that have z: "z \<in> set (entries [] d)" "eid (fst z) = x"
      using entry_of_SomeD by auto
    then obtain z' where z': "z' \<in> set (entries [] ?d')" "kept 0xD83D z z'"
      using facts(2) by blast
    then have "entry_of ?d' (eid (fst z')) = Some z'"
      using entry_of_unique [OF wf'] by blast
    moreover have "eid (fst z') = x"
      using z' z by (simp add: kept_def)
    ultimately show ?thesis
      using z' by auto
  qed
  show "container_of_ext ?d' x = container_of_ext d x" if "x \<in> set (ids d)" for x
  proof -
    from that obtain z where z: "entry_of d x = Some z"
      using entry_of_None [of d x] by auto
    then obtain z' where "entry_of ?d' x = Some z'" "kept 0xD83D z z'"
      using look by blast
    with z show ?thesis
      by (simp add: container_of_ext_def findContainer_ext_kept)
  qed
  show "parent_of ?d' x = parent_of d x" if "x \<in> set (ids d)" for x
  proof -
    from that obtain z where z: "entry_of d x = Some z"
      using entry_of_None [of d x] by auto
    then obtain z' where "entry_of ?d' x = Some z'" "kept 0xD83D z z'"
      using look by blast
    with z show ?thesis
      by (simp add: parent_of_def parent_id_kept)
  qed
  show "marked_ext ?d' x" if "marked_ext d x" for x
  proof -
    from that obtain z where z: "entry_of d x = Some z"
      by (auto simp: marked_ext_def split: option.splits)
    then obtain z' where "entry_of ?d' x = Some z'" "kept 0xD83D z z'"
      using look by blast
    with z that show ?thesis
      by (simp add: marked_ext_def kept_def)
  qed
  have "b \<in> set (applyButtons_ext d)" if "b \<in> set (applyButtons_ext ?d')" for b
  proof -
    from that obtain z' where z': "z' \<in> set (entries [] ?d')" "matches_any APPLY_SELECTORS_ext z'"
      "eid (fst z') = b"
      unfolding applyButtons_ext_def by auto
    from facts(1) [OF z'(1)] show ?thesis
    proof
      assume "\<exists>z\<in>set (entries [] d). kept 0xD83D z z'"
      then obtain z where z: "z \<in> set (entries [] d)" "kept 0xD83D z z'"
        by blast
      have "matches_any APPLY_SELECTORS_ext z"
        using z'(2) matches_any_kept [OF z(2)] by simp
      moreover have "eid (fst z) = b"
        using z(2) z'(3) by (simp add: kept_def)
      ultimately show ?thesis
        unfolding applyButtons_ext_def using z(1) by force
    next
      assume "z' \<in> set (entries (fst y # ancestors y) (trackBtn_node_ext env (fresh d)))"
      then have "z' = (control_element_ext env (fresh d), TEXT_TRACK_APPLICATION, fst y # ancestors y)"
        by (simp add: entries_trackBtn_node_ext)
      with z'(2) show ?thesis
        using control_ext_not_found by blast
    qed
  qed
  then show "set (applyButtons_ext ?d') \<subseteq> set (applyButtons_ext d)"
    by blast
qed

text \<open>Its loop.\<close>

lemma parent_is_entry:
  assumes "entry_of d b = Some x" and "parent_id x = Some p"
  shows "\<exists>y\<in>set (entries [] d). eid (fst y) = p"
proof -
  from assms(2) obtain e where e: "parentElement x = Some e" "eid e = p"
    by (auto simp: parent_id_def)
  then have "e \<in> set (ancestors x)"
    by (auto simp: parentElement_def split: list.splits)
  moreover have "x \<in> set (entries [] d)"
    using assms(1) entry_of_SomeD by blast
  ultimately show ?thesis
    using ancestors_are_entries [of x "[]" d e] e(2) by auto
qed

lemma inject_one_ext_throws:
  "inject_one_ext env b d = Inl err \<longleftrightarrow> throws_ext d b"
  by (cases err)
     (auto simp: inject_one_ext_def throws_ext_def marked_ext_def container_of_ext_def
        parent_of_def split: option.splits)

lemma inject_one_ext_settled:
  "marked_ext d b \<or> container_of_ext d b = None \<Longrightarrow> inject_one_ext env b d = Inr d"
  by (auto simp: inject_one_ext_def marked_ext_def container_of_ext_def split: option.splits)

lemma inject_one_ext_step:
  assumes wf: "distinct (ids d)" and "inject_one_ext env b d = Inr d'"
  shows "extends_ext d d'"
    and "b \<in> set (ids d) \<Longrightarrow> marked_ext d' b \<or> container_of_ext d b = None"
proof -
  have "extends_ext d d' \<and> (b \<in> set (ids d) \<longrightarrow> marked_ext d' b \<or> container_of_ext d b = None)"
  proof (cases "marked_ext d b \<or> container_of_ext d b = None \<or> b \<notin> set (ids d)")
    case True
    have "inject_one_ext env b d = Inr d"
    proof (cases "b \<in> set (ids d)")
      case True
      with \<open>marked_ext d b \<or> container_of_ext d b = None \<or> b \<notin> set (ids d)\<close> show ?thesis
        by (intro inject_one_ext_settled) auto
    next
      case False
      then have "entry_of d b = None"
        by (simp add: entry_of_None)
      then show ?thesis
        by (simp add: inject_one_ext_def)
    qed
    with assms(2) True wf show ?thesis
      by (auto simp: extends_ext_refl)
  next
    case False
    then obtain btn where btn: "entry_of d b = Some btn"
      using entry_of_None [of d b] by auto
    with False obtain ce where ce: "findContainer_ext btn = Some ce"
      by (auto simp: container_of_ext_def)
    from btn False have unmarked: "getAttribute (fst btn) HAS_TRACK_BUTTON \<noteq> Some ''true''"
      by (simp add: marked_ext_def)
    from assms(2) btn ce unmarked obtain p where p: "parent_id btn = Some p"
      "d' = mark_ext b (insertInto p (Some b) (trackBtn_node_ext env (fresh d)) d)"
      by (auto simp: inject_one_ext_def split: option.splits)
    obtain y where y: "y \<in> set (entries [] d)" "eid (fst y) = p"
      using parent_is_entry [OF btn p(1)] by blast
    let ?d'' = "insertInto p (Some b) (trackBtn_node_ext env (fresh d)) d"
    have e1: "extends_ext d ?d''"
      using wf y by (rule extends_ext_insert)
    then have wf'': "distinct (ids ?d'')" and "b \<in> set (ids ?d'')"
      using False unfolding extends_ext_def by blast+
    then have "marked_ext d' b"
      unfolding p(2) by (simp add: marked_ext_mark)
    moreover have "extends_ext ?d'' d'"
      unfolding p(2) using wf'' by (rule extends_ext_mark)
    ultimately show ?thesis
      using extends_ext_trans [OF e1] by blast
  qed
  then show "extends_ext d d'"
    and "b \<in> set (ids d) \<Longrightarrow> marked_ext d' b \<or> container_of_ext d b = None"
    by simp_all
qed

lemma throws_ext_earlier:
  assumes "extends_ext d d'" and "b \<in> set (ids d)" and "throws_ext d' b"
  shows "throws_ext d b"
proof -
  from assms(1,2) have "container_of_ext d' b = container_of_ext d b"
    "parent_of d' b = parent_of d b" "marked_ext d b \<Longrightarrow> marked_ext d' b"
    unfolding extends_ext_def by blast+
  with assms(3) show ?thesis
    unfolding throws_ext_def by auto
qed

lemma forEach_ext_runs:
  assumes "distinct (ids d)" and "set bs \<subseteq> set (ids d)" and "\<forall>b\<in>set bs. \<not> throws_ext d b"
  shows "\<exists>d'. forEach_ext env bs d = (d', None) \<and> extends_ext d d'
           \<and> (\<forall>b\<in>set bs. marked_ext d' b \<or> container_of_ext d b = None)"
  using assms
proof (induction bs arbitrary: d)
  case Nil
  then show ?case by (simp add: extends_ext_refl)
next
  case (Cons b bs)
  from Cons.prems(3) obtain d1 where d1: "inject_one_ext env b d = Inr d1"
    using inject_one_ext_throws [of env b d] by (cases "inject_one_ext env b d") auto
  note st = inject_one_ext_step [OF Cons.prems(1) d1]
  have wf1: "distinct (ids d1)" and sub: "set (ids d) \<subseteq> set (ids d1)"
    using st(1) unfolding extends_ext_def by blast+
  have nt: "\<forall>b'\<in>set bs. \<not> throws_ext d1 b'"
    using Cons.prems(2,3) throws_ext_earlier [OF st(1)] by auto
  have "set bs \<subseteq> set (ids d1)"
    using Cons.prems(2) sub by auto
  from Cons.IH [OF wf1 this nt]
  obtain d' where d': "forEach_ext env bs d1 = (d', None)" "extends_ext d1 d'"
    "\<forall>b'\<in>set bs. marked_ext d' b' \<or> container_of_ext d1 b' = None"
    by blast
  have e: "extends_ext d d'"
    using st(1) d'(2) by (rule extends_ext_trans)
  have "marked_ext d' x \<or> container_of_ext d x = None" if "x \<in> set (b # bs)" for x
  proof (cases "x \<in> set bs")
    case True
    moreover have "container_of_ext d1 x = container_of_ext d x"
      using st(1) Cons.prems(2) that unfolding extends_ext_def by auto
    ultimately show ?thesis
      using d'(3) by auto
  next
    case False
    with that have "x = b" by simp
    moreover have "marked_ext d1 b \<or> container_of_ext d b = None"
      using st(2) Cons.prems(2) by simp
    moreover have "marked_ext d1 b \<Longrightarrow> marked_ext d' b"
      using d'(2) unfolding extends_ext_def by blast
    ultimately show ?thesis
      by auto
  qed
  with d1 d'(1) e show ?case
    by simp
qed

lemma forEach_ext_fixed:
  "\<forall>b\<in>set bs. inject_one_ext env b d = Inr d \<Longrightarrow> forEach_ext env bs d = (d, None)"
  by (induction bs) simp_all

lemma below_root: "x \<in> set (entries ancs t) \<Longrightarrow> ancs \<noteq> [] \<Longrightarrow> ancestors x \<noteq> []"
proof (induction t arbitrary: ancs)
  case (Text s)
  then show ?case by simp
next
  case (Element e ks)
  show ?case
  proof (cases "x = (e, concat (map textContent ks), ancs)")
    case True
    with Element.prems(2) show ?thesis
      by (simp add: ancestors_def)
  next
    case False
    with Element.prems(1) obtain k where "k \<in> set ks" "x \<in> set (entries (e # ancs) k)"
      by auto
    then show ?thesis
      using Element.IH [of k "e # ancs"] by simp
  qed
qed

lemma thrower_is_first:
  assumes wf: "distinct (ids d)" and "b \<in> set (applyButtons_ext d)" and "parent_of d b = None"
  shows "\<exists>rest. applyButtons_ext d = b # rest"
proof (cases d)
  case (Text t)
  with assms(2) show ?thesis
    by (simp add: applyButtons_ext_def)
next
  case (Element e ks)
  let ?root = "(e, concat (map textContent ks), [])"
  let ?below = "concat (map (entries [e]) ks)"
  from assms(2) obtain z where z: "z \<in> set (entries [] d)" "matches_any APPLY_SELECTORS_ext z"
    "eid (fst z) = b"
    unfolding applyButtons_ext_def by auto
  then have "entry_of d b = Some z"
    using entry_of_unique [OF wf] by blast
  with assms(3) have "ancestors z = []"
    by (auto simp: parent_of_def parent_id_def parentElement_def split: list.splits)
  moreover have "ancestors x \<noteq> []" if "x \<in> set ?below" for x
  proof -
    from that obtain k where "k \<in> set ks" "x \<in> set (entries [e] k)"
      by auto
    then show ?thesis
      using below_root [of x "[e]" k] by simp
  qed
  ultimately have "z \<notin> set ?below"
    by blast
  then have "z = ?root"
    using z(1) Element by simp
  with z(2,3) show ?thesis
    by (simp add: applyButtons_ext_def Element)
qed

lemma injectButton_ext_forEach: "injectButton_ext env d = forEach_ext env (applyButtons_ext d) d"
  by (simp add: injectButton_ext_def)

lemma applyButtons_ext_in_ids: "set (applyButtons_ext d) \<subseteq> set (ids d)"
  unfolding applyButtons_ext_def ids_def by auto

lemma ext_scan_idempotent:
  assumes "distinct (ids d)"
  shows "injectButton_ext env' (fst (injectButton_ext env d)) = injectButton_ext env d"
proof (cases "\<exists>b\<in>set (applyButtons_ext d). throws_ext d b")
  case True
  then obtain b where b: "b \<in> set (applyButtons_ext d)" "throws_ext d b"
    by blast
  then obtain rest where "applyButtons_ext d = b # rest"
    using thrower_is_first [OF assms] by (auto simp: throws_ext_def)
  moreover have "inject_one_ext e b d = Inl HierarchyRequestError" for e
    using b(2) by (simp add: inject_one_ext_throws)
  ultimately have "injectButton_ext e d = (d, Some HierarchyRequestError)" for e
    by (simp add: injectButton_ext_forEach)
  then show ?thesis
    by simp
next
  case False
  then obtain d1 where d1: "forEach_ext env (applyButtons_ext d) d = (d1, None)" "extends_ext d d1"
    "\<forall>b\<in>set (applyButtons_ext d). marked_ext d1 b \<or> container_of_ext d b = None"
    using forEach_ext_runs [OF assms applyButtons_ext_in_ids, of env] by blast
  have "inject_one_ext env' b d1 = Inr d1" if "b \<in> set (applyButtons_ext d1)" for b
  proof -
    from that d1(2) have b: "b \<in> set (applyButtons_ext d)"
      unfolding extends_ext_def by blast
    then have "b \<in> set (ids d)"
      using applyButtons_ext_in_ids by blast
    then have "container_of_ext d1 b = container_of_ext d b"
      using d1(2) unfolding extends_ext_def by blast
    with d1(3) b show ?thesis
      by (intro inject_one_ext_settled) auto
  qed
  then have "forEach_ext env' (applyButtons_ext d1) d1 = (d1, None)"
    by (intro forEach_ext_fixed) blast
  with d1(1) show ?thesis
    by (simp add: injectButton_ext_forEach)
qed

text \<open>Its count of controls.\<close>

lemma id_selector_ignores: "ignores HAS_TRACK_BUTTON [[IdSel ''jt-track-btn'']]"
  by (simp add: ignores_def HAS_TRACK_BUTTON_def)

lemma length_controls_ext_mark [simp]:
  "length (controls_ext (mark_ext b d)) = length (controls_ext d)"
  by (simp add: controls_ext_def querySelectorAll_def entries_mark filter_map comp_def
      matches_mark_entry [OF id_selector_ignores])

lemma control_ext_matches: "matches [[IdSel ''jt-track-btn'']] (control_element_ext env f, t, p)"
  by (simp add: matches_def matches_compound_def getAttribute_def control_element_ext_def)

lemma length_controls_ext_insert:
  assumes wf: "distinct (ids d)" and y: "y \<in> set (entries [] d)" "eid (fst y) = c"
  shows "length (controls_ext (insertInto c r (trackBtn_node_ext env (fresh d)) d))
           = Suc (length (controls_ext d))"
proof -
  note facts = insertInto_facts [OF wf y unit_in_trackBtn_node_ext [of env "fresh d"], where r = r]
  have "length (filter (matches [[IdSel ''jt-track-btn'']])
                  (entries [] (insertInto c r (trackBtn_node_ext env (fresh d)) d)))
      = length (filter (matches [[IdSel ''jt-track-btn'']]) (entries [] d))
        + length (filter (matches [[IdSel ''jt-track-btn'']])
                    (entries (fst y # ancestors y) (trackBtn_node_ext env (fresh d))))"
    by (rule facts(6)) (rule matches_kept)
  then show ?thesis
    by (simp add: controls_ext_def querySelectorAll_def entries_trackBtn_node_ext
        control_ext_matches)
qed

lemma marked_ext_insert:
  assumes wf: "distinct (ids d)" and y: "y \<in> set (entries [] d)" "eid (fst y) = c"
    and "x \<in> set (ids d)"
  shows "marked_ext (insertInto c r (trackBtn_node_ext env (fresh d)) d) x = marked_ext d x"
proof -
  let ?d' = "insertInto c r (trackBtn_node_ext env (fresh d)) d"
  note facts = insertInto_facts [OF wf y unit_in_trackBtn_node_ext [of env "fresh d"], where r = r]
  have new: "set (ids (trackBtn_node_ext env (fresh d))) \<inter> set (ids d) = {}"
    using fresh_above [of _ d] by fastforce
  have wf': "distinct (ids ?d')"
    using facts(5) new by simp
  from assms(4) obtain z where z: "entry_of d x = Some z"
    using entry_of_None [of d x] by auto
  then have zz: "z \<in> set (entries [] d)" "eid (fst z) = x"
    using entry_of_SomeD by auto
  then obtain z' where z': "z' \<in> set (entries [] ?d')" "kept 0xD83D z z'"
    using facts(2) by blast
  then have "entry_of ?d' (eid (fst z')) = Some z'"
    using entry_of_unique [OF wf'] by blast
  moreover have "eid (fst z') = x"
    using z' zz by (simp add: kept_def)
  ultimately show ?thesis
    using z z'(2) by (simp add: marked_ext_def kept_def)
qed

lemma inject_one_ext_count:
  assumes wf: "distinct (ids d)" and "inject_one_ext env b d = Inr d'"
  shows "length (controls_ext d') = length (controls_ext d) + (if qualifies_ext d b then 1 else 0)"
    and "x \<in> set (ids d) \<Longrightarrow> x \<noteq> b \<Longrightarrow> marked_ext d' x = marked_ext d x"
proof -
  have "length (controls_ext d') = length (controls_ext d) + (if qualifies_ext d b then 1 else 0)
      \<and> (x \<in> set (ids d) \<longrightarrow> x \<noteq> b \<longrightarrow> marked_ext d' x = marked_ext d x)"
  proof (cases "marked_ext d b \<or> container_of_ext d b = None")
    case True
    then have "inject_one_ext env b d = Inr d"
      by (rule inject_one_ext_settled)
    with assms(2) True show ?thesis
      by (auto simp: qualifies_ext_def)
  next
    case False
    then obtain btn where btn: "entry_of d b = Some btn"
      by (auto simp: container_of_ext_def split: option.splits)
    with False obtain ce where ce: "findContainer_ext btn = Some ce"
      by (auto simp: container_of_ext_def)
    from btn False have unmarked: "getAttribute (fst btn) HAS_TRACK_BUTTON \<noteq> Some ''true''"
      by (simp add: marked_ext_def)
    from assms(2) btn ce unmarked obtain p where p: "parent_id btn = Some p"
      "d' = mark_ext b (insertInto p (Some b) (trackBtn_node_ext env (fresh d)) d)"
      by (auto simp: inject_one_ext_def split: option.splits)
    obtain y where y: "y \<in> set (entries [] d)" "eid (fst y) = p"
      using parent_is_entry [OF btn p(1)] by blast
    have "length (controls_ext d') = Suc (length (controls_ext d))"
      unfolding p(2) using length_controls_ext_insert [OF wf y] by simp
    moreover have "marked_ext d' x = marked_ext d x" if "x \<in> set (ids d)" "x \<noteq> b"
      unfolding p(2) using that marked_ext_insert [OF wf y that(1)]
      by (simp add: marked_ext_mark)
    ultimately show ?thesis
      using False by (simp add: qualifies_ext_def)
  qed
  then show "length (controls_ext d') = length (controls_ext d) + (if qualifies_ext d b then 1 else 0)"
    and "x \<in> set (ids d) \<Longrightarrow> x \<noteq> b \<Longrightarrow> marked_ext d' x = marked_ext d x"
    by simp_all
qed

lemma forEach_ext_count:
  assumes "distinct (ids d)" and "set bs \<subseteq> set (ids d)" and "distinct bs"
    and "forEach_ext env bs d = (d', None)"
  shows "length (controls_ext d') = length (controls_ext d) + length (filter (qualifies_ext d) bs)"
  using assms
proof (induction bs arbitrary: d)
  case Nil
  then show ?case by simp
next
  case (Cons b bs)
  from Cons.prems(4) obtain d1 where d1: "inject_one_ext env b d = Inr d1"
    "forEach_ext env bs d1 = (d', None)"
    by (cases "inject_one_ext env b d") auto
  note st = inject_one_ext_step [OF Cons.prems(1) d1(1)]
  note ct = inject_one_ext_count [OF Cons.prems(1) d1(1)]
  have wf1: "distinct (ids d1)" and sub: "set (ids d) \<subseteq> set (ids d1)"
    using st(1) unfolding extends_ext_def by blast+
  have s1: "set bs \<subseteq> set (ids d1)"
    using Cons.prems(2) sub by auto
  have d: "distinct bs"
    using Cons.prems(3) by simp
  note ih = Cons.IH [OF wf1 s1 d d1(2)]
  have "qualifies_ext d1 x = qualifies_ext d x" if "x \<in> set bs" for x
  proof -
    from that Cons.prems(2,3) have x: "x \<in> set (ids d)" "x \<noteq> b"
      by auto
    then have "container_of_ext d1 x = container_of_ext d x"
      using st(1) unfolding extends_ext_def by blast
    with ct(2) [OF x] show ?thesis
      by (simp add: qualifies_ext_def)
  qed
  then have "filter (qualifies_ext d1) bs = filter (qualifies_ext d) bs"
    by (intro filter_cong) simp_all
  with ih ct(1) show ?case
    by simp
qed

lemma distinct_applyButtons_ext: "distinct (ids d) \<Longrightarrow> distinct (applyButtons_ext d)"
  unfolding applyButtons_ext_def ids_def by (rule distinct_map_filter)

lemma ext_scan_count:
  assumes "distinct (ids d)"
  shows "snd (injectButton_ext env d) = None \<Longrightarrow>
           length (controls_ext (fst (injectButton_ext env d)))
             = length (controls_ext d) + length (filter (qualifies_ext d) (applyButtons_ext d))"
    and "snd (injectButton_ext env d) \<noteq> None \<Longrightarrow> fst (injectButton_ext env d) = d"
proof -
  show "length (controls_ext (fst (injectButton_ext env d)))
             = length (controls_ext d) + length (filter (qualifies_ext d) (applyButtons_ext d))"
    if "snd (injectButton_ext env d) = None"
  proof -
    from that have "forEach_ext env (applyButtons_ext d) d = (fst (injectButton_ext env d), None)"
      by (simp add: injectButton_ext_forEach prod_eq_iff)
    from forEach_ext_count [OF assms applyButtons_ext_in_ids distinct_applyButtons_ext [OF assms] this]
    show ?thesis .
  qed
  show "fst (injectButton_ext env d) = d" if "snd (injectButton_ext env d) \<noteq> None"
  proof (cases "\<exists>b\<in>set (applyButtons_ext d). throws_ext d b")
    case True
    then obtain b where b: "b \<in> set (applyButtons_ext d)" "throws_ext d b"
      by blast
    then obtain rest where "applyButtons_ext d = b # rest"
      using thrower_is_first [OF assms] by (auto simp: throws_ext_def)
    moreover have "inject_one_ext env b d = Inl HierarchyRequestError"
      using b(2) by (simp add: inject_one_ext_throws)
    ultimately show ?thesis
      by (simp add: injectButton_ext_forEach)
  next
    case False
    then obtain d1 where "forEach_ext env (applyButtons_ext d) d = (d1, None)"
      using forEach_ext_runs [OF assms applyButtons_ext_in_ids, of env] by blast
    with that show ?thesis
      by (simp add: injectButton_ext_forEach)
  qed
qed

lemma siblings_facts:
  "well_formed siblings_doc"
  "findApplyButtons siblings_doc = [2, 3]"
  "container_of siblings_doc 2 = Some 1"
  "container_of siblings_doc 3 = Some 1"
  by code_simp+

lemma examples_facts:
  "well_formed root_button_doc"
  "2 \<in> set (findApplyButtons siblings_doc)"
  "\<not> processed siblings_doc 2"
  "\<not> has_control siblings_doc 1"
  "snd (injectButton_ext env0 siblings_doc) = None"
  "snd (injectButton_ext env0 root_button_doc) \<noteq> None"
  by code_simp+

text \<open>
  C6, as amended. On a document whose elements are distinct objects, a second scan by
  \<open>injectButtons\<close> of src/unnamed/part_000, run on what the first scan left, changes
  nothing: it inserts no control and marks no button, whatever the browser's choices.
  One scan leaves no fewer controls than there were and inserts at most one per apply button it finds
  that is unmarked and whose container holds no control. It marks every unmarked apply
  button it finds that has a container, and leaves a control inside that container; when
  the container held none, the scan has inserted at least one control. A second scan by
  \<open>injectButton\<close> of src/extension/content.js changes nothing either, and ends as the
  first did. One scan of it that does not throw inserts exactly one control per apply
  button that is unmarked and has a container; one that throws leaves the document as
  it was.
\<close>

theorem scan_idempotent:
  assumes "well_formed d"
  shows "injectButtons env' (injectButtons env d) = injectButtons env d
       \<and> length (controls (injectButtons env d))
           \<le> length (controls d) + length (filter (qualifies d) (findApplyButtons d))
       \<and> length (controls d) \<le> length (controls (injectButtons env d))
       \<and> (\<forall>a\<in>set (findApplyButtons d). \<forall>c. \<not> processed d a \<and> container_of d a = Some c \<longrightarrow>
             processed (injectButtons env d) a \<and> has_control (injectButtons env d) c
             \<and> (\<not> has_control d c \<longrightarrow>
                  length (controls d) < length (controls (injectButtons env d))))
       \<and> injectButton_ext env' (fst (injectButton_ext env d)) = injectButton_ext env d
       \<and> (snd (injectButton_ext env d) = None \<longrightarrow>
            length (controls_ext (fst (injectButton_ext env d)))
              = length (controls_ext d) + length (filter (qualifies_ext d) (applyButtons_ext d)))
       \<and> (snd (injectButton_ext env d) \<noteq> None \<longrightarrow> fst (injectButton_ext env d) = d)"
proof -
  let ?d1 = "injectButtons env d"
  from assms have wf: "distinct (ids d)"
    by (simp add: well_formed_def)
  note fi = fold_inject [OF wf, where env = env and as = "findApplyButtons d", folded injectButtons_fold]
  have "inject_one env' a ?d1 = ?d1" if "a \<in> set (findApplyButtons ?d1)" for a
  proof -
    from that obtain z' where "z' \<in> set (entries [] ?d1)" "affordance z'" "eid (fst z') = a"
      unfolding set_findApplyButtons by auto
    then obtain z where "z \<in> set (entries [] d)" "affordance z" "eid (fst z) = a"
      using fi(1) unfolding extends_def by metis
    then have a: "a \<in> set (findApplyButtons d)"
      unfolding set_findApplyButtons by auto
    then have "a \<in> set (ids d)"
      by (rule found_in_ids)
    with a have "processed ?d1 a \<or> container_of d a = None"
      by (rule fi(2))
    moreover have "container_of ?d1 a = container_of d a"
      using fi(1) \<open>a \<in> set (ids d)\<close> unfolding extends_def by blast
    ultimately show ?thesis
      by (intro inject_one_settled) auto
  qed
  then have twice: "injectButtons env' ?d1 = ?d1"
    unfolding injectButtons_fold [of env' ?d1] by (rule fold_fixed)
  have sub: "set (findApplyButtons d) \<subseteq> set (ids d)"
    using found_in_ids by blast
  have upper: "length (controls ?d1)
      \<le> length (controls d) + length (filter (qualifies d) (findApplyButtons d))"
    using fold_inject_count [OF wf sub, of env] by (simp add: injectButtons_fold)
  have mono: "length (controls d) \<le> length (controls ?d1)"
    using fold_inject_mono [OF wf, of env "findApplyButtons d"] by (simp add: injectButtons_fold)
  have lower: "processed ?d1 a \<and> has_control ?d1 c
      \<and> (\<not> has_control d c \<longrightarrow> length (controls d) < length (controls ?d1))"
    if "a \<in> set (findApplyButtons d)" "\<not> processed d a" "container_of d a = Some c" for a c
  proof -
    note a = found_in_ids [OF that(1)]
    note fc = fold_inject_control [OF wf that(1) a that(2,3), of env, folded injectButtons_fold]
    have "processed ?d1 a"
      using fi(2) [OF that(1) a] that(3) by simp
    with fc show ?thesis
      by simp
  qed
  note ext = ext_scan_count [OF wf, of env]
  from twice upper mono lower ext_scan_idempotent [OF wf, of env' env] ext show ?thesis
    by simp
qed

theorem scan_idempotent_witness:
  "well_formed siblings_doc \<and> well_formed root_button_doc
   \<and> 2 \<in> set (findApplyButtons siblings_doc) \<and> \<not> processed siblings_doc 2
   \<and> container_of siblings_doc 2 = Some 1 \<and> \<not> has_control siblings_doc 1
   \<and> snd (injectButton_ext env0 siblings_doc) = None
   \<and> snd (injectButton_ext env0 root_button_doc) \<noteq> None
   \<and> injectButtons env0 (injectButtons env0 siblings_doc) = injectButtons env0 siblings_doc
   \<and> length (controls (injectButtons env0 siblings_doc))
       \<le> length (controls siblings_doc)
          + length (filter (qualifies siblings_doc) (findApplyButtons siblings_doc))
   \<and> processed (injectButtons env0 siblings_doc) 2
   \<and> has_control (injectButtons env0 siblings_doc) 1
   \<and> length (controls siblings_doc) < length (controls (injectButtons env0 siblings_doc))
   \<and> injectButton_ext env0 (fst (injectButton_ext env0 siblings_doc))
       = injectButton_ext env0 siblings_doc
   \<and> length (controls_ext (fst (injectButton_ext env0 siblings_doc)))
       = length (controls_ext siblings_doc)
         + length (filter (qualifies_ext siblings_doc) (applyButtons_ext siblings_doc))
   \<and> fst (injectButton_ext env0 root_button_doc) = root_button_doc"
  using scan_idempotent [OF siblings_facts(1), of env0 env0]
    scan_idempotent [OF examples_facts(1), of env0 env0]
    siblings_facts(1,3) examples_facts
  by simp

text \<open>
  C6 as stated fails: two visible, unmarked apply buttons that share a container get
  one control between them, not one each, also after two scans.
\<close>

theorem shared_container_not_one_each:
  "findApplyButtons siblings_doc = [2, 3]
   \<and> \<not> processed siblings_doc 2 \<and> \<not> processed siblings_doc 3
   \<and> controls siblings_doc = []
   \<and> length (controls (injectButtons env0 (injectButtons env0 siblings_doc))) = 1"
  by code_simp

text \<open>
  C7, as amended. On a document whose elements are distinct objects, when two apply
  buttons found by \<open>injectButtons\<close> of src/unnamed/part_000 resolve to the same
  insertion container, a scan adds at most one control to the children of that
  container, and after the scan both buttons carry the processed marker.
\<close>

theorem shared_container_one_control:
  assumes "well_formed d"
    and "a \<in> set (findApplyButtons d)" and "b \<in> set (findApplyButtons d)" and "a \<noteq> b"
    and "container_of d a = Some c" and "container_of d b = Some c"
  shows "length (controls_in (injectButtons env d) c) \<le> Suc (length (controls_in d c))
       \<and> processed (injectButtons env d) a \<and> processed (injectButtons env d) b"
proof -
  from assms(1) have wf: "distinct (ids d)"
    by (simp add: well_formed_def)
  note fi = fold_inject [OF wf, where env = env and as = "findApplyButtons d", folded injectButtons_fold]
  have "processed (injectButtons env d) a"
    using fi(2) [OF assms(2) found_in_ids [OF assms(2)]] assms(5) by simp
  moreover have "processed (injectButtons env d) b"
    using fi(2) [OF assms(3) found_in_ids [OF assms(3)]] assms(6) by simp
  moreover have "length (controls_in (injectButtons env d) c) \<le> Suc (length (controls_in d c))"
    using fi(4) [of c] by auto
  ultimately show ?thesis
    by simp
qed

theorem shared_container_one_control_witness:
  "well_formed siblings_doc
   \<and> length (controls_in (injectButtons env0 siblings_doc) 1) \<le> Suc (length (controls_in siblings_doc 1))
   \<and> processed (injectButtons env0 siblings_doc) 2
   \<and> processed (injectButtons env0 siblings_doc) 3"
proof -
  have "2 \<in> set (findApplyButtons siblings_doc)" "3 \<in> set (findApplyButtons siblings_doc)"
    "(2::nat) \<noteq> 3"
    by (simp_all add: siblings_facts(2))
  from shared_container_one_control [OF siblings_facts(1) this siblings_facts(3,4), of env0]
  show ?thesis
    using siblings_facts(1) by simp
qed

text \<open>
  C7 as stated fails for \<open>injectButton\<close> of src/extension/content.js, which does not
  look into the container: two apply buttons with one container get a control each,
  both in that container.
\<close>

theorem ext_shared_container_two_controls:
  "container_of_ext siblings_doc 2 = Some 1
   \<and> container_of_ext siblings_doc 3 = Some 1
   \<and> snd (injectButton_ext env0 siblings_doc) = None
   \<and> length (controls_in_ext siblings_doc 1) = 0
   \<and> length (controls_in_ext (fst (injectButton_ext env0 siblings_doc)) 1) = 2"
  by code_simp

end
